theory Spec2Isabelle
  imports Main "HOL-Library.Word"
begin

unbundle bit_operations_syntax

section \<open>The proxy pool (command.h, proxy.c)\<close>

text \<open>
  \<^verbatim>\<open>enum proxy_type\<close> and \<^verbatim>\<open>struct proxy_t\<close> of command.h. A \<^verbatim>\<open>char *\<close> field is a
  \<open>string option\<close> (\<open>None\<close> is the NULL pointer), a \<^verbatim>\<open>proxy *\<close> is an \<open>addr option\<close>.
  The two socket addresses are kept abstract: only which of them the resolver filled
  in matters to the code modelled here.
\<close>

datatype proxy_type = PROXY_NONE | PROXY_HTTP | PROXY_HTTPS | PROXY_SOCKS4 | PROXY_SOCKS5

type_synonym addr = nat

datatype sockaddr = Sockaddr_in string | Sockaddr_in6 string

record proxy =
  host :: "string option"
  port :: int
  username :: "string option"
  password :: "string option"
  type :: proxy_type
  detected_type :: proxy_type
  is_ipv6 :: int
  is_active :: int
  has_auth :: int
  validated :: int
  last_rtt_ms :: int
  addr :: "sockaddr option"
  addr6 :: "sockaddr option"
  "next" :: "addr option"
  parent :: "addr option"

text \<open>
  The proxy fields of the global \<^verbatim>\<open>xconnect\<close> (\<^verbatim>\<open>struct xaddress_t\<close>), together with
  the memory that holds the proxy nodes: \<open>heap\<close> maps the address of every allocated
  node to its contents, and \<open>brk\<close> is the next address \<^verbatim>\<open>calloc\<close> hands out.
\<close>

record state =
  heap :: "addr \<Rightarrow> proxy option"
  brk :: addr
  proxy_list :: "addr option"
  proxy_tail :: "addr option"
  current_proxy :: "addr option"
  proxy_count :: int
  proxy_default_type :: proxy_type
  proxy_file :: "string option"
  proxy_loader_concurrency :: int

text \<open>
  \<^verbatim>\<open>next_proxy\<close> (proxy.c). The result is the returned pointer and the new state;
  \<open>None\<close> stands for the undefined behaviour of reading \<^verbatim>\<open>current_proxy->next\<close>
  through a pointer to memory that is not allocated.
\<close>

definition next_proxy :: "state \<Rightarrow> (addr option \<times> state) option" where
  "next_proxy s =
     (if proxy_list s = None then Some (None, s)
      else case current_proxy s of
        None \<Rightarrow> Some (proxy_list s, s\<lparr>current_proxy := proxy_list s\<rparr>)
      | Some c \<Rightarrow>
         (case heap s c of
            None \<Rightarrow> None
          | Some n \<Rightarrow>
             if next n = None
             then Some (proxy_list s, s\<lparr>current_proxy := proxy_list s\<rparr>)
             else Some (next n, s\<lparr>current_proxy := next n\<rparr>)))"

text \<open>\<open>k\<close> consecutive calls of \<^verbatim>\<open>next_proxy\<close>, with the pointers they return.\<close>

fun next_proxy_n :: "nat \<Rightarrow> state \<Rightarrow> (addr option list \<times> state) option" where
  "next_proxy_n 0 s = Some ([], s)"
| "next_proxy_n (Suc k) s =
     (case next_proxy s of
        None \<Rightarrow> None
      | Some (r, s') \<Rightarrow>
         (case next_proxy_n k s' of
            None \<Rightarrow> None
          | Some (rs, s'') \<Rightarrow> Some (r # rs, s'')))"

text \<open>A node as \<^verbatim>\<open>calloc(1, sizeof(proxy))\<close> returns it: every field zero.\<close>

definition calloc_proxy :: proxy where
  "calloc_proxy =
     \<lparr>host = None, port = 0, username = None, password = None,
      type = PROXY_NONE, detected_type = PROXY_NONE, is_ipv6 = 0, is_active = 0,
      has_auth = 0, validated = 0, last_rtt_ms = 0, addr = None, addr6 = None,
      next = None, parent = None\<rparr>"

text \<open>A pool of two proxies at the addresses 0 and 1, as loaded from a file.\<close>

definition two_proxies :: state where
  "two_proxies =
     \<lparr>heap = (\<lambda>a. None)
        (0 := Some (calloc_proxy\<lparr>host := Some ''192.0.2.1'', port := 1080, next := Some 1\<rparr>),
         1 := Some (calloc_proxy\<lparr>host := Some ''192.0.2.2'', port := 8080, parent := Some 0\<rparr>)),
      brk = 2, proxy_list = Some 0, proxy_tail = Some 1, current_proxy = None,
      proxy_count = 2, proxy_default_type = PROXY_NONE, proxy_file = Some ''proxies.txt'',
      proxy_loader_concurrency = 0\<rparr>"

subsection \<open>Well-formed pools\<close>

text \<open>
  \<open>dll h prev as\<close>: in memory \<open>h\<close> the nodes at the addresses \<open>as\<close> form a doubly
  linked list in this order: each \<^verbatim>\<open>next\<close> points to the following node, the last one
  to NULL, and each \<^verbatim>\<open>parent\<close> to the node before (the first one to \<open>prev\<close>).
\<close>

fun first_of :: "addr list \<Rightarrow> addr option" where
  "first_of [] = None"
| "first_of (a # as) = Some a"

fun last_of :: "addr list \<Rightarrow> addr option" where
  "last_of [] = None"
| "last_of [a] = Some a"
| "last_of (a # b # as) = last_of (b # as)"

fun dll :: "(addr \<Rightarrow> proxy option) \<Rightarrow> addr option \<Rightarrow> addr list \<Rightarrow> bool" where
  "dll h prev [] = True"
| "dll h prev (a # as) =
     (case h a of
        None \<Rightarrow> False
      | Some n \<Rightarrow> parent n = prev \<and> next n = first_of as \<and> dll h (Some a) as)"

fun cursor_ok :: "addr option \<Rightarrow> addr list \<Rightarrow> bool" where
  "cursor_ok None as = True"
| "cursor_ok (Some c) as = (c \<in> set as)"

text \<open>
  \<open>pool_list s as\<close>: the pool of \<open>s\<close> is the list of the nodes at \<open>as\<close>, head first, as
  \<^verbatim>\<open>load_proxies\<close> builds it: head and tail agree with the list, and every node lies
  below \<open>brk\<close>. \<open>pool_wf s as\<close>: moreover the count is the length of the list and the
  cursor is unset or points into it.
\<close>

definition pool_list :: "state \<Rightarrow> addr list \<Rightarrow> bool" where
  "pool_list s as =
     (distinct as \<and> dll (heap s) None as \<and>
      proxy_list s = first_of as \<and> proxy_tail s = last_of as \<and>
      list_all (\<lambda>a. a < brk s) as)"

definition pool_wf :: "state \<Rightarrow> addr list \<Rightarrow> bool" where
  "pool_wf s as =
     (pool_list s as \<and> proxy_count s = int (length as) \<and> cursor_ok (current_proxy s) as)"

section \<open>Round robin\<close>

lemma dll_next:
  "dll h prev as \<Longrightarrow> i < length as \<Longrightarrow>
   \<exists>n. h (as ! i) = Some n \<and>
       next n = (if Suc i < length as then Some (as ! Suc i) else None)"
proof (induction as arbitrary: prev i)
  case Nil
  then show ?case by simp
next
  case (Cons a as)
  show ?case
  proof (cases i)
    case 0
    with Cons.prems show ?thesis
      by (cases as) (auto split: option.splits)
  next
    case (Suc j)
    with Cons.prems have "dll h (Some a) as" and "j < length as"
      by (auto split: option.splits)
    from Cons.IH [OF this] Suc show ?thesis by auto
  qed
qed

lemma first_of_nth: "as \<noteq> [] \<Longrightarrow> first_of as = Some (as ! 0)"
  by (cases as) simp_all

lemma next_proxy_unset:
  assumes "pool_wf s as" and "as \<noteq> []" and "current_proxy s = None"
  shows "next_proxy s = Some (Some (as ! 0), s\<lparr>current_proxy := Some (as ! 0)\<rparr>)"
  using assms by (simp add: next_proxy_def pool_wf_def pool_list_def first_of_nth)

lemma next_proxy_at:
  assumes "pool_wf s as" and "i < length as" and "current_proxy s = Some (as ! i)"
  shows "next_proxy s =
         Some (Some (as ! (Suc i mod length as)),
               s\<lparr>current_proxy := Some (as ! (Suc i mod length as))\<rparr>)"
proof -
  from assms have ne: "as \<noteq> []" by auto
  from assms have d: "dll (heap s) None as" and pl: "proxy_list s = Some (as ! 0)"
    by (simp_all add: pool_wf_def pool_list_def first_of_nth ne)
  from dll_next [OF d assms(2)] obtain n where
    n: "heap s (as ! i) = Some n"
       "next n = (if Suc i < length as then Some (as ! Suc i) else None)"
    by blast
  show ?thesis
  proof (cases "Suc i < length as")
    case True
    with n pl assms(3) show ?thesis by (simp add: next_proxy_def)
  next
    case False
    with assms(2) have "Suc i = length as" by simp
    with False n pl assms(3) show ?thesis by (simp add: next_proxy_def)
  qed
qed

lemma pool_wf_cursor:
  "pool_wf s as \<Longrightarrow> j < length as \<Longrightarrow> pool_wf (s\<lparr>current_proxy := Some (as ! j)\<rparr>) as"
  by (simp add: pool_wf_def pool_list_def)

lemma next_proxy_n_at:
  assumes "pool_wf s as" and "i < length as" and "current_proxy s = Some (as ! i)"
  shows "\<exists>s'. next_proxy_n k s =
           Some (map (\<lambda>j. Some (as ! ((Suc i + j) mod length as))) [0..<k], s')"
  using assms
proof (induction k arbitrary: s i)
  case 0
  then show ?case by simp
next
  case (Suc k)
  let ?i' = "Suc i mod length as"
  let ?s' = "s\<lparr>current_proxy := Some (as ! ?i')\<rparr>"
  from Suc.prems(2) have "0 < length as" by auto
  then have lt: "?i' < length as" by (rule mod_less_divisor)
  have step: "next_proxy s = Some (Some (as ! ?i'), ?s')"
    using Suc.prems by (rule next_proxy_at)
  have wf': "pool_wf ?s' as" using Suc.prems(1) lt by (rule pool_wf_cursor)
  from Suc.IH [OF wf' lt] obtain s'' where
    rest: "next_proxy_n k ?s' =
             Some (map (\<lambda>j. Some (as ! ((Suc ?i' + j) mod length as))) [0..<k], s'')"
    by auto
  have idx: "(Suc ?i' + j) mod length as = (Suc i + Suc j) mod length as" for j
  proof -
    have "(Suc ?i' + j) mod length as = (?i' + Suc j) mod length as" by simp
    also have "\<dots> = (Suc i + Suc j) mod length as" by (rule mod_add_left_eq)
    finally show ?thesis .
  qed
  have "[0..<Suc k] = 0 # map Suc [0..<k]"
    by (simp only: upt_conv_Cons [OF zero_less_Suc] map_Suc_upt)
  then have "map (\<lambda>j. Some (as ! ((Suc i + j) mod length as))) [0..<Suc k] =
        Some (as ! ?i') # map (\<lambda>j. Some (as ! ((Suc ?i' + j) mod length as))) [0..<k]"
    by (simp only: list.map map_map comp_def idx add_0_right)
  with step rest show ?case by (simp del: upt_Suc)
qed

text \<open>
  Claim C4. In a well-formed pool of \<open>k \<ge> 1\<close> proxies whose cursor is unset, \<open>k + 1\<close>
  consecutive calls of \<^verbatim>\<open>next_proxy\<close> return the \<open>k\<close> proxies in list order, each
  exactly once (their addresses are distinct), and then the first one again.
\<close>

theorem next_proxy_round_robin:
  assumes "pool_wf s as" and "as \<noteq> []" and "current_proxy s = None"
  shows "distinct as \<and>
         (\<exists>s'. next_proxy_n (length as + 1) s = Some (map Some as @ [Some (as ! 0)], s'))"
proof -
  let ?k = "length as"
  let ?s0 = "s\<lparr>current_proxy := Some (as ! 0)\<rparr>"
  from assms(2) have k: "0 < ?k" by simp
  have first: "next_proxy s = Some (Some (as ! 0), ?s0)"
    using assms by (rule next_proxy_unset)
  have wf0: "pool_wf ?s0 as" using assms(1) k by (rule pool_wf_cursor)
  from next_proxy_n_at [OF wf0 k, of ?k] obtain s' where
    rest: "next_proxy_n ?k ?s0 = Some (map (\<lambda>j. Some (as ! ((Suc 0 + j) mod ?k))) [0..<?k], s')"
    by auto
  have "Some (as ! 0) # map (\<lambda>j. Some (as ! ((Suc 0 + j) mod ?k))) [0..<?k] =
        map Some as @ [Some (as ! 0)]" (is "?l = ?r")
  proof (rule nth_equalityI)
    show "length ?l = length ?r" by simp
  next
    fix i assume "i < length ?l"
    then have i: "i \<le> ?k" by simp
    show "?l ! i = ?r ! i"
    proof (cases i)
      case 0
      with k show ?thesis by (simp add: nth_append)
    next
      case (Suc j)
      with i have j: "j < ?k" by simp
      show ?thesis
      proof (cases "Suc j < ?k")
        case True
        with Suc j show ?thesis by (simp add: nth_append)
      next
        case False
        with j have eq: "Suc j = ?k" by simp
        then have e: "Suc j mod ?k = 0" by simp
        from eq have r: "?r ! Suc j = Some (as ! 0)"
          by (simp add: nth_append)
        from j have "?l ! Suc j = Some (as ! (Suc j mod ?k))" by simp
        with e r Suc show ?thesis by simp
      qed
    qed
  qed
  with first rest have "next_proxy_n (?k + 1) s = Some (map Some as @ [Some (as ! 0)], s')"
    by simp
  moreover from assms(1) have "distinct as" by (simp add: pool_wf_def pool_list_def)
  ultimately show ?thesis by blast
qed

lemma two_proxies_wf: "pool_wf two_proxies [0, 1]"
  by (simp add: pool_wf_def pool_list_def two_proxies_def calloc_proxy_def)

theorem next_proxy_round_robin_witness:
  "pool_wf two_proxies [0, 1] \<and> [0, 1] \<noteq> ([] :: addr list) \<and>
   current_proxy two_proxies = None \<and> distinct [0 :: addr, 1] \<and>
   (\<exists>s'. next_proxy_n 3 two_proxies = Some ([Some 0, Some 1, Some 0], s'))"
proof -
  have wf: "pool_wf two_proxies [0, 1]" by (rule two_proxies_wf)
  have c: "current_proxy two_proxies = None" by (simp add: two_proxies_def)
  have "distinct [0 :: addr, 1] \<and>
        (\<exists>s'. next_proxy_n (length [0 :: addr, 1] + 1) two_proxies =
                Some (map Some [0, 1] @ [Some ([0, 1] ! 0)], s'))"
    using wf _ c by (rule next_proxy_round_robin) simp
  then have "\<exists>s'. next_proxy_n 3 two_proxies = Some ([Some 0, Some 1, Some 0], s')"
    by (simp add: numeral_3_eq_3)
  with wf c show ?thesis by simp
qed

section \<open>Timed socket I/O (proxy.c)\<close>

text \<open>
  The handshakes talk to a non-blocking socket through \<^verbatim>\<open>select\<close>, \<^verbatim>\<open>read\<close> and
  \<^verbatim>\<open>write\<close>. What the kernel answers is the environment of the model: a socket
  carries a script for its receiving side and one for its sending side. A script is
  the list of the events to come, each with the time in milliseconds after which it
  happens, counted from the moment the program starts to wait for it:
  \<^item> \<open>Rsel e\<close>, \<open>Wsel e\<close>: \<^verbatim>\<open>select\<close> returns \<open>-1\<close> with \<^verbatim>\<open>errno = e\<close>;
  \<^item> \<open>Rerr e\<close>, \<open>Werr e\<close>: \<^verbatim>\<open>select\<close> reports the socket ready and the \<^verbatim>\<open>read\<close> or
    \<^verbatim>\<open>write\<close> that follows returns \<open>-1\<close> with \<^verbatim>\<open>errno = e\<close>;
  \<^item> \<open>Rdata bs\<close>: the bytes \<open>bs\<close> arrive; \<^verbatim>\<open>read\<close> returns as many of them as were
    asked for and the others stay in the socket; \<open>Rdata []\<close> is the end of the
    stream (\<^verbatim>\<open>read\<close> returns 0);
  \<^item> \<open>Wacc k\<close>: \<^verbatim>\<open>write\<close> accepts up to \<open>k\<close> bytes (\<open>Wacc 0\<close>: it returns 0).
  When the script is empty nothing happens any more. \<^verbatim>\<open>select\<close> with a timeout
  returns 0 when the next event is further away than the timeout. Time passes only
  inside \<^verbatim>\<open>select\<close> and \<^verbatim>\<open>poll\<close>; \<open>clock\<close> is the time in milliseconds, \<open>sent\<close> the
  bytes the socket has accepted, and \<open>polls\<close> records every call of \<^verbatim>\<open>select\<close>: the
  time of the call and the timeout it was given, in milliseconds.
  \<^verbatim>\<open>EWOULDBLOCK\<close> is \<^verbatim>\<open>EAGAIN\<close>, as on Linux.
\<close>

type_synonym byte = "8 word"

datatype errno = EINTR | EAGAIN | ETIMEDOUT | ECONNRESET | EINVAL | EPIPE

datatype rd_step =
    Rsel errno
  | Rerr errno
  | Rdata "byte list"

datatype wr_step =
    Wsel errno
  | Werr errno
  | Wacc nat

record sock =
  rx :: "(nat \<times> rd_step) list"
  tx :: "(nat \<times> wr_step) list"
  sent :: "byte list"
  clock :: nat
  polls :: "(nat \<times> int) list"

text \<open>
  \<^verbatim>\<open>safe_read_with_timeout\<close> (proxy.c): the loop \<^verbatim>\<open>while (total < count)\<close>, with
  \<open>buf\<close> the bytes read so far (\<^verbatim>\<open>total\<close> is their number). The result is the return
  value, the value of \<^verbatim>\<open>errno\<close> if the call has set it, the buffer and the socket.
\<close>

function safe_read_loop ::
  "int \<Rightarrow> nat \<Rightarrow> byte list \<Rightarrow> sock \<Rightarrow> int \<times> errno option \<times> byte list \<times> sock" where
  "safe_read_loop timeout_sec count buf s =
     (if \<not> length buf < count then (int (length buf), None, buf, s)
      else if timeout_sec < 0
      then (- 1, Some EINVAL, buf, s\<lparr>polls := polls s @ [(clock s, 1000 * timeout_sec)]\<rparr>)
      else
        let tv = nat (1000 * timeout_sec);
            s1 = s\<lparr>polls := polls s @ [(clock s, 1000 * timeout_sec)]\<rparr>
        in case rx s of
             [] \<Rightarrow> (- 1, Some ETIMEDOUT, buf, s1\<lparr>clock := clock s + tv\<rparr>)
           | (d, st) # evs \<Rightarrow>
               if tv < d
               then (- 1, Some ETIMEDOUT, buf,
                     s1\<lparr>clock := clock s + tv, rx := (d - tv, st) # evs\<rparr>)
               else
                 let s2 = s1\<lparr>clock := clock s + d, rx := evs\<rparr>
                 in case st of
                      Rsel e \<Rightarrow>
                        if e = EINTR then safe_read_loop timeout_sec count buf s2
                        else (- 1, Some e, buf, s2)
                    | Rerr e \<Rightarrow>
                        if e = EAGAIN then safe_read_loop timeout_sec count buf s2
                        else (- 1, Some e, buf, s2)
                    | Rdata bs \<Rightarrow>
                        if bs = []
                        then (if 0 < length buf then int (length buf) else - 1,
                              Some ECONNRESET, buf, s2)
                        else
                          let n = min (length bs) (count - length buf)
                          in safe_read_loop timeout_sec count (buf @ take n bs)
                               (if n < length bs
                                then s2\<lparr>rx := (0, Rdata (drop n bs)) # evs\<rparr>
                                else s2))"
  by pat_completeness auto
termination
  by (relation "measure (\<lambda>(t, count, buf, s). 2 * (count - length buf) + length (rx s))")
     (auto split: if_splits)

definition safe_read_with_timeout ::
  "sock \<Rightarrow> nat \<Rightarrow> int \<Rightarrow> int \<times> errno option \<times> byte list \<times> sock" where
  "safe_read_with_timeout s count timeout_sec = safe_read_loop timeout_sec count [] s"


text \<open>
  \<^verbatim>\<open>safe_write_with_timeout\<close> (proxy.c): \<open>tot\<close> is \<^verbatim>\<open>total\<close>, the number of bytes of
  \<open>buf\<close> written so far.
\<close>

function safe_write_loop ::
  "int \<Rightarrow> byte list \<Rightarrow> nat \<Rightarrow> sock \<Rightarrow> int \<times> errno option \<times> sock" where
  "safe_write_loop timeout_sec buf tot s =
     (if \<not> tot < length buf then (int tot, None, s)
      else if timeout_sec < 0
      then (- 1, Some EINVAL, s\<lparr>polls := polls s @ [(clock s, 1000 * timeout_sec)]\<rparr>)
      else
        let tv = nat (1000 * timeout_sec);
            s1 = s\<lparr>polls := polls s @ [(clock s, 1000 * timeout_sec)]\<rparr>
        in case tx s of
             [] \<Rightarrow> (- 1, Some ETIMEDOUT, s1\<lparr>clock := clock s + tv\<rparr>)
           | (d, st) # evs \<Rightarrow>
               if tv < d
               then (- 1, Some ETIMEDOUT,
                     s1\<lparr>clock := clock s + tv, tx := (d - tv, st) # evs\<rparr>)
               else
                 let s2 = s1\<lparr>clock := clock s + d, tx := evs\<rparr>
                 in case st of
                      Wsel e \<Rightarrow>
                        if e = EINTR then safe_write_loop timeout_sec buf tot s2
                        else (- 1, Some e, s2)
                    | Werr e \<Rightarrow>
                        if e = EAGAIN then safe_write_loop timeout_sec buf tot s2
                        else (- 1, Some e, s2)
                    | Wacc k \<Rightarrow>
                        let n = min k (length buf - tot)
                        in if n = 0 then (- 1, Some ECONNRESET, s2)
                           else safe_write_loop timeout_sec buf (tot + n)
                                  (s2\<lparr>sent := sent s2 @ take n (drop tot buf)\<rparr>))"
  by pat_completeness auto
termination
  by (relation "measure (\<lambda>(t, buf, tot, s). 2 * (length buf - tot) + length (tx s))")
     (auto split: if_splits)

definition safe_write_with_timeout ::
  "sock \<Rightarrow> byte list \<Rightarrow> int \<Rightarrow> int \<times> errno option \<times> sock" where
  "safe_write_with_timeout s buf timeout_sec = safe_write_loop timeout_sec buf 0 s"

declare safe_read_loop.simps [simp del] safe_write_loop.simps [simp del]

text \<open>
  The bound in the words of the specification: every poll of a call that started at
  time \<open>start\<close> is given at most what is left of the timeout.
\<close>

definition within_budget :: "int \<Rightarrow> nat \<Rightarrow> (nat \<times> int) list \<Rightarrow> bool" where
  "within_budget timeout_sec start ps =
     list_all (\<lambda>(c, tv). tv \<le> 1000 * timeout_sec - (int c - int start)) ps"

text \<open>A peer that sends two bytes, each nine seconds after the program starts to wait.\<close>

definition trickle :: sock where
  "trickle = \<lparr>rx = [(9000, Rdata [5]), (9000, Rdata [0])], tx = [], sent = [], clock = 0, polls = []\<rparr>"


text \<open>
  \<open>polled t s s'\<close>: from \<open>s\<close> to \<open>s'\<close> the socket was polled some number of times, each
  time with the timeout \<open>t\<close> seconds, and no more time than that has passed per poll.
\<close>

definition polled :: "int \<Rightarrow> sock \<Rightarrow> sock \<Rightarrow> bool" where
  "polled t s s' =
     (\<exists>ps. polls s' = polls s @ ps \<and> map snd ps = replicate (length ps) (1000 * t) \<and>
           clock s' \<le> clock s + length ps * nat (1000 * t))"

lemma polled_refl: "polled t s s"
  by (simp add: polled_def)

lemma polled_once:
  "polls s' = polls s @ [(c, 1000 * t)] \<Longrightarrow> clock s' \<le> clock s + nat (1000 * t) \<Longrightarrow> polled t s s'"
  unfolding polled_def by (rule exI [of _ "[(c, 1000 * t)]"]) simp

lemma polled_trans: "polled t s s1 \<Longrightarrow> polled t s1 s2 \<Longrightarrow> polled t s s2"
  unfolding polled_def
proof (elim exE conjE)
  fix ps qs
  assume a: "polls s1 = polls s @ ps" "map snd ps = replicate (length ps) (1000 * t)"
    "clock s1 \<le> clock s + length ps * nat (1000 * t)"
    and b: "polls s2 = polls s1 @ qs" "map snd qs = replicate (length qs) (1000 * t)"
    "clock s2 \<le> clock s1 + length qs * nat (1000 * t)"
  show "\<exists>ps. polls s2 = polls s @ ps \<and> map snd ps = replicate (length ps) (1000 * t) \<and>
        clock s2 \<le> clock s + length ps * nat (1000 * t)"
  proof (intro exI [of _ "ps @ qs"] conjI)
    show "polls s2 = polls s @ ps @ qs" using a b by simp
    show "map snd (ps @ qs) = replicate (length (ps @ qs)) (1000 * t)"
      using a b by (simp add: replicate_add)
    show "clock s2 \<le> clock s + length (ps @ qs) * nat (1000 * t)"
      using a b by (simp add: algebra_simps)
  qed
qed

lemma polled_step:
  "polls s1 = polls s @ [(c, 1000 * t)] \<Longrightarrow> clock s1 \<le> clock s + nat (1000 * t) \<Longrightarrow>
   polled t s1 s' \<Longrightarrow> polled t s s'"
  by (blast intro: polled_once polled_trans)



lemma safe_read_loop_polled:
  "polled t s (snd (snd (snd (safe_read_loop t count buf s))))"
proof (induction t count buf s rule: safe_read_loop.induct)
  case (1 t count buf s)
  show ?case
  proof (cases "length buf < count")
    case False
    then show ?thesis by (subst safe_read_loop.simps) (simp add: polled_refl)
  next
    case lt: True
    show ?thesis
    proof (cases "t < 0")
      case True
      with lt show ?thesis
        by (subst safe_read_loop.simps) (auto intro!: polled_once)
    next
      case nn: False
      let ?s1 = "s\<lparr>polls := polls s @ [(clock s, 1000 * t)]\<rparr>"
      show ?thesis
      proof (cases "rx s")
        case Nil
        with lt nn show ?thesis
          by (subst safe_read_loop.simps) (auto simp: Let_def intro!: polled_once)
      next
        case (Cons p evs)
        obtain d st where p: "p = (d, st)" by (cases p)
        show ?thesis
        proof (cases "nat (1000 * t) < d")
          case True
          with lt nn Cons p show ?thesis
            by (subst safe_read_loop.simps) (auto simp: Let_def intro!: polled_once)
        next
          case le: False
          let ?s2 = "?s1\<lparr>clock := clock s + d, rx := evs\<rparr>"
          have once: "polled t s ?s2"
            using le by (intro polled_once [where c = "clock s"]) simp_all
          show ?thesis
          proof (cases st)
            case (Rsel e)
            show ?thesis
            proof (cases "e = EINTR")
              case True
              have a: "polled t ?s2 (snd (snd (snd (safe_read_loop t count buf ?s2))))"
                using lt nn Cons le Rsel True
                by (intro "1.IH"(1) [OF _ _ refl refl _ p [symmetric] _ refl]) simp_all
              have b: "safe_read_loop t count buf s = safe_read_loop t count buf ?s2"
                using lt nn Cons p le Rsel True
                by (subst safe_read_loop.simps) (simp add: Let_def)
              show ?thesis unfolding b by (rule polled_trans [OF once a])
            next
              case False
              with lt nn Cons p le Rsel once show ?thesis
                by (subst safe_read_loop.simps) (simp add: Let_def)
            qed
          next
            case (Rerr e)
            show ?thesis
            proof (cases "e = EAGAIN")
              case True
              have a: "polled t ?s2 (snd (snd (snd (safe_read_loop t count buf ?s2))))"
                using lt nn Cons le Rerr True
                by (intro "1.IH"(2) [OF _ _ refl refl _ p [symmetric] _ refl]) simp_all
              have b: "safe_read_loop t count buf s = safe_read_loop t count buf ?s2"
                using lt nn Cons p le Rerr True
                by (subst safe_read_loop.simps) (simp add: Let_def)
              show ?thesis unfolding b by (rule polled_trans [OF once a])
            next
              case False
              with lt nn Cons p le Rerr once show ?thesis
                by (subst safe_read_loop.simps) (simp add: Let_def)
            qed
          next
            case (Rdata bs)
            show ?thesis
            proof (cases "bs = []")
              case True
              with lt nn Cons p le Rdata once show ?thesis
                by (subst safe_read_loop.simps) (simp add: Let_def)
            next
              case False
              let ?n = "min (length bs) (count - length buf)"
              let ?s3 = "if ?n < length bs then ?s2\<lparr>rx := (0, Rdata (drop ?n bs)) # evs\<rparr> else ?s2"
              have a: "polled t ?s3 (snd (snd (snd (safe_read_loop t count (buf @ take ?n bs) ?s3))))"
                using lt nn Cons le Rdata False
                by (intro "1.IH"(3) [OF _ _ refl refl _ p [symmetric] _ refl _ _ refl]) simp_all
              have b: "safe_read_loop t count buf s =
                             safe_read_loop t count (buf @ take ?n bs) ?s3"
                using lt nn Cons p le Rdata False
                by (subst safe_read_loop.simps) (simp add: Let_def)
              have c: "polled t s ?s3"
                using le by (intro polled_once [where c = "clock s"]) simp_all
              show ?thesis unfolding b by (rule polled_trans [OF c a])
            qed
          qed
        qed
      qed
    qed
  qed
qed

lemma safe_write_loop_polled:
  "polled t s (snd (snd (safe_write_loop t buf tot s)))"
proof (induction t buf tot s rule: safe_write_loop.induct)
  case (1 t buf tot s)
  show ?case
  proof (cases "tot < length buf")
    case False
    then show ?thesis by (subst safe_write_loop.simps) (simp add: polled_refl)
  next
    case lt: True
    show ?thesis
    proof (cases "t < 0")
      case True
      with lt show ?thesis
        by (subst safe_write_loop.simps) (auto intro!: polled_once)
    next
      case nn: False
      let ?s1 = "s\<lparr>polls := polls s @ [(clock s, 1000 * t)]\<rparr>"
      show ?thesis
      proof (cases "tx s")
        case Nil
        with lt nn show ?thesis
          by (subst safe_write_loop.simps) (auto simp: Let_def intro!: polled_once)
      next
        case (Cons p evs)
        obtain d st where p: "p = (d, st)" by (cases p)
        show ?thesis
        proof (cases "nat (1000 * t) < d")
          case True
          with lt nn Cons p show ?thesis
            by (subst safe_write_loop.simps) (auto simp: Let_def intro!: polled_once)
        next
          case le: False
          let ?s2 = "?s1\<lparr>clock := clock s + d, tx := evs\<rparr>"
          have once: "polled t s ?s2"
            using le by (intro polled_once [where c = "clock s"]) simp_all
          show ?thesis
          proof (cases st)
            case (Wsel e)
            show ?thesis
            proof (cases "e = EINTR")
              case True
              have a: "polled t ?s2 (snd (snd (safe_write_loop t buf tot ?s2)))"
                using lt nn Cons le Wsel True
                by (intro "1.IH"(1) [OF _ _ refl refl _ p [symmetric] _ refl]) simp_all
              have b: "safe_write_loop t buf tot s = safe_write_loop t buf tot ?s2"
                using lt nn Cons p le Wsel True
                by (subst safe_write_loop.simps) (simp add: Let_def)
              show ?thesis unfolding b by (rule polled_trans [OF once a])
            next
              case False
              with lt nn Cons p le Wsel once show ?thesis
                by (subst safe_write_loop.simps) (simp add: Let_def)
            qed
          next
            case (Werr e)
            show ?thesis
            proof (cases "e = EAGAIN")
              case True
              have a: "polled t ?s2 (snd (snd (safe_write_loop t buf tot ?s2)))"
                using lt nn Cons le Werr True
                by (intro "1.IH"(2) [OF _ _ refl refl _ p [symmetric] _ refl]) simp_all
              have b: "safe_write_loop t buf tot s = safe_write_loop t buf tot ?s2"
                using lt nn Cons p le Werr True
                by (subst safe_write_loop.simps) (simp add: Let_def)
              show ?thesis unfolding b by (rule polled_trans [OF once a])
            next
              case False
              with lt nn Cons p le Werr once show ?thesis
                by (subst safe_write_loop.simps) (simp add: Let_def)
            qed
          next
            case (Wacc k)
            let ?n = "min k (length buf - tot)"
            show ?thesis
            proof (cases "?n = 0")
              case True
              with lt nn Cons p le Wacc once show ?thesis
                by (subst safe_write_loop.simps) (simp add: Let_def)
            next
              case False
              let ?s3 = "?s2\<lparr>sent := sent ?s2 @ take ?n (drop tot buf)\<rparr>"
              have a: "polled t ?s3 (snd (snd (safe_write_loop t buf (tot + ?n) ?s3)))"
                using lt nn Cons le Wacc False
                by (intro "1.IH"(3) [OF _ _ refl refl _ p [symmetric] _ refl _ refl]) simp_all
              have b: "safe_write_loop t buf tot s = safe_write_loop t buf (tot + ?n) ?s3"
                using lt nn Cons p le Wacc False
                by (subst safe_write_loop.simps) (auto simp: Let_def min_def)
              have c: "polled t s ?s3"
                using le by (intro polled_once [where c = "clock s"]) simp_all
              show ?thesis unfolding b by (rule polled_trans [OF c a])
            qed
          qed
        qed
      qed
    qed
  qed
qed


definition rd_sock :: "int \<times> errno option \<times> byte list \<times> sock \<Rightarrow> sock" where
  "rd_sock r = snd (snd (snd r))"

definition wr_sock :: "int \<times> errno option \<times> sock \<Rightarrow> sock" where
  "wr_sock r = snd (snd r)"

lemma trickle_read: "safe_read_with_timeout trickle 2 10 = (2, None, [5, 0],
  \<lparr>rx = [], tx = [], sent = [], clock = 18000, polls = [(0, 10000), (9000, 10000)]\<rparr>)"
  by (simp add: safe_read_with_timeout_def trickle_def safe_read_loop.simps Let_def)

text \<open>
  Claim C1, as stated, fails. Reading two bytes with a timeout of 10 seconds from the
  trickling peer, the second poll is given 10 seconds although only one second of
  the budget is left, and the call returns after 18 seconds.
\<close>

theorem safe_read_budget_counterexample:
  "\<not> within_budget 10 (clock trickle) (polls (rd_sock (safe_read_with_timeout trickle 2 10))) \<and>
   \<not> clock (rd_sock (safe_read_with_timeout trickle 2 10)) \<le> clock trickle + 1000 * 10 \<and>
   fst (safe_read_with_timeout trickle 2 10) = 2"
  by (simp add: trickle_read rd_sock_def within_budget_def) (simp add: trickle_def)

text \<open>
  Claim C1, amended. Every readiness poll of \<^verbatim>\<open>safe_read_with_timeout\<close> and of
  \<^verbatim>\<open>safe_write_with_timeout\<close> is given the original timeout, so a call waits at most
  the timeout per poll, and at most the number of its polls times the timeout in all.
\<close>

theorem safe_io_polls:
  "polled timeout_sec s (rd_sock (safe_read_with_timeout s count timeout_sec)) \<and>
   polled timeout_sec s (wr_sock (safe_write_with_timeout s buf timeout_sec))"
  by (simp add: rd_sock_def wr_sock_def safe_read_with_timeout_def safe_write_with_timeout_def
        safe_read_loop_polled safe_write_loop_polled)

section \<open>Handshakes (proxy.c)\<close>

text \<open>
  The three handshakes return 0 or \<open>-1\<close>; what went wrong is only printed. The model
  keeps the reason: one constructor for each message of the code, \<open>Silent\<close> for a
  \<open>-1\<close> without a message, and \<open>Fault\<close> where the C code would write past a buffer
  or read through a NULL pointer. \<open>ret\<close> is the value the C function returns.
\<close>

datatype negotiation =
    Tunnel_ok
  | Write_timeout
  | Write_failed
  | Read_timeout
  | Read_failed
  | Peer_closed
  | Bad_version byte
  | Auth_failed
  | No_acceptable_method
  | Rejected int
  | Not_http
  | Resolve_failed
  | Silent
  | Fault

definition ret :: "negotiation \<Rightarrow> int" where
  "ret r = (if r = Tunnel_ok then 0 else - 1)"

definition bytes_of :: "string \<Rightarrow> byte list" where
  "bytes_of str = map of_char str"

definition write_failure :: "errno option \<Rightarrow> negotiation" where
  "write_failure e = (if e = Some ETIMEDOUT then Write_timeout else Write_failed)"

definition read_failure :: "int \<Rightarrow> errno option \<Rightarrow> negotiation" where
  "read_failure n e =
     (if n < 0 then (if e = Some ETIMEDOUT then Read_timeout else Read_failed)
      else Peer_closed)"

definition nonempty :: "string option \<Rightarrow> bool" where
  "nonempty str = (case str of None \<Rightarrow> False | Some cs \<Rightarrow> cs \<noteq> [])"

text \<open>\<^verbatim>\<open>(dest_port >> 8) & 0xFF\<close> and \<^verbatim>\<open>dest_port & 0xFF\<close>, stored into a byte.\<close>

definition port_hi :: "int \<Rightarrow> byte" where
  "port_hi dest_port = word_of_int (drop_bit 8 dest_port AND 0xFF)"

definition port_lo :: "int \<Rightarrow> byte" where
  "port_lo dest_port = word_of_int (dest_port AND 0xFF)"

subsection \<open>SOCKS5\<close>

text \<open>
  \<^verbatim>\<open>socks5_connect\<close>, in the order of the code: the greeting, the method reply, the
  user name and password if the server chose method 2, then the request and the
  reply (\<open>socks5_tunnel\<close>), whose bound address is read and dropped (\<open>socks5_drain\<close>).
  Every message is built in \<^verbatim>\<open>unsigned char buf[512]\<close>; the lengths are stored into one
  byte each.
\<close>

definition socks5_greeting :: "string option \<Rightarrow> string option \<Rightarrow> byte list" where
  "socks5_greeting uname passwd =
     (if nonempty uname \<and> nonempty passwd then [5, 2, 0, 2] else [5, 1, 0])"

definition socks5_auth :: "string \<Rightarrow> string \<Rightarrow> byte list" where
  "socks5_auth uname passwd =
     [1, of_nat (length uname)] @ bytes_of uname @
     [of_nat (length passwd)] @ bytes_of passwd"

definition socks5_request :: "string \<Rightarrow> int \<Rightarrow> byte list" where
  "socks5_request dest_host dest_port =
     [5, 1, 0, 3, of_nat (length dest_host)] @ bytes_of dest_host @
     [port_hi dest_port, port_lo dest_port]"

definition socks5_drain :: "sock \<Rightarrow> byte list \<Rightarrow> negotiation \<times> sock" where
  "socks5_drain s hdr =
     (let atyp = hdr ! 3 in
      if atyp = 1 then
        (case safe_read_with_timeout s 6 10 of
           (n, e, tmp, s') \<Rightarrow> if n \<noteq> 6 then (Silent, s') else (Tunnel_ok, s'))
      else if atyp = 3 then
        (case safe_read_with_timeout s 1 10 of
           (n, e, alen, s') \<Rightarrow>
             if n \<noteq> 1 then (Silent, s')
             else
               let skip = min (unat (alen ! 0) + 2) 256 in
               (case safe_read_with_timeout s' skip 10 of
                  (n, e, tmp, s'') \<Rightarrow>
                    if n \<noteq> int skip then (Silent, s'') else (Tunnel_ok, s'')))
      else if atyp = 4 then
        (case safe_read_with_timeout s 18 10 of
           (n, e, tmp, s') \<Rightarrow> if n \<noteq> 18 then (Silent, s') else (Tunnel_ok, s'))
      else (Tunnel_ok, s))"

definition socks5_tunnel :: "sock \<Rightarrow> string \<Rightarrow> int \<Rightarrow> negotiation \<times> sock" where
  "socks5_tunnel s dest_host dest_port =
     (if 512 < 7 + length dest_host then (Fault, s)
      else
        let buf = socks5_request dest_host dest_port in
        case safe_write_with_timeout s buf 10 of
          (n, e, s1) \<Rightarrow>
            if n \<noteq> int (length buf) then (write_failure e, s1)
            else
              (case safe_read_with_timeout s1 4 10 of
                 (n, e, hdr, s2) \<Rightarrow>
                   if n < 4 then (read_failure n e, s2)
                   else if hdr ! 1 \<noteq> 0 then (Rejected (uint (hdr ! 1)), s2)
                   else socks5_drain s2 hdr))"

definition socks5_connect ::
  "sock \<Rightarrow> string \<Rightarrow> int \<Rightarrow> string option \<Rightarrow> string option \<Rightarrow> negotiation \<times> sock" where
  "socks5_connect s dest_host dest_port uname passwd =
     (let buf = socks5_greeting uname passwd in
      case safe_write_with_timeout s buf 10 of
        (n, e, s1) \<Rightarrow>
          if n \<noteq> int (length buf) then (write_failure e, s1)
          else
            (case safe_read_with_timeout s1 2 10 of
               (n, e, rep, s2) \<Rightarrow>
                 if n \<noteq> 2 then (read_failure n e, s2)
                 else if rep ! 0 \<noteq> 5 then (Bad_version (rep ! 0), s2)
                 else if rep ! 1 = 2 then
                   (case (uname, passwd) of
                      (Some u, Some p) \<Rightarrow>
                        if 512 < 3 + length u + length p then (Fault, s2)
                        else
                          let buf = socks5_auth u p in
                          (case safe_write_with_timeout s2 buf 10 of
                             (n, e, s3) \<Rightarrow>
                               if n \<noteq> int (length buf) then (write_failure e, s3)
                               else
                                 (case safe_read_with_timeout s3 2 10 of
                                    (n, e, rep, s4) \<Rightarrow>
                                      if n \<noteq> 2 then (read_failure n e, s4)
                                      else if rep ! 1 \<noteq> 0 then (Auth_failed, s4)
                                      else socks5_tunnel s4 dest_host dest_port))
                    | _ \<Rightarrow> (Fault, s2))
                 else if rep ! 1 \<noteq> 0 then (No_acceptable_method, s2)
                 else socks5_tunnel s2 dest_host dest_port))"

text \<open>
  A server that accepts what is written and answers \<open>05 00\<close>, then
  \<open>05 00 00 01\<close> and six bytes of bound address.
\<close>

definition mock_socks5 :: sock where
  "mock_socks5 =
     \<lparr>rx = [(20, Rdata [5, 0]), (35, Rdata [5, 0, 0, 1, 0, 0, 0, 0, 0, 0])],
      tx = [(0, Wacc 512), (0, Wacc 512)], sent = [], clock = 0, polls = []\<rparr>"


subsection \<open>C library\<close>

text \<open>
  \<^verbatim>\<open>isspace\<close>, \<^verbatim>\<open>isdigit\<close>, \<^verbatim>\<open>strtol\<close> in base 10 and \<^verbatim>\<open>atoi\<close> on character codes, in
  the C locale and with a 64-bit \<^verbatim>\<open>long\<close> and a 32-bit \<^verbatim>\<open>int\<close>. \<open>strtol\<close> returns the
  value and how many characters it has consumed (\<^verbatim>\<open>endptr - nptr\<close>); \<open>atoi\<close> is
  \<^verbatim>\<open>(int) strtol(nptr, NULL, 10)\<close>. \<open>fmt_d\<close> is what \<^verbatim>\<open>%d\<close> prints.
\<close>

definition isspace :: "nat \<Rightarrow> bool" where
  "isspace c = (c = 32 \<or> (9 \<le> c \<and> c \<le> 13))"

definition isdigit :: "nat \<Rightarrow> bool" where
  "isdigit c = (48 \<le> c \<and> c \<le> 57)"

fun digits_value :: "int \<Rightarrow> nat list \<Rightarrow> int" where
  "digits_value acc [] = acc"
| "digits_value acc (c # cs) = digits_value (10 * acc + (int c - 48)) cs"

definition LONG_MAX :: int where
  "LONG_MAX = 2 ^ 63 - 1"

definition LONG_MIN :: int where
  "LONG_MIN = - (2 ^ 63)"

definition strtol :: "nat list \<Rightarrow> int \<times> nat" where
  "strtol nptr =
     (let ws = takeWhile isspace nptr;
          s1 = dropWhile isspace nptr;
          neg = (case s1 of [] \<Rightarrow> False | c # _ \<Rightarrow> c = 45);
          sg = (case s1 of [] \<Rightarrow> 0 | c # _ \<Rightarrow> if c = 45 \<or> c = 43 then 1 else 0);
          ds = takeWhile isdigit (drop sg s1);
          v = digits_value 0 ds
      in if ds = [] then (0, 0)
         else (if neg then max LONG_MIN (- v) else min LONG_MAX v,
               length ws + sg + length ds))"

definition atoi :: "nat list \<Rightarrow> int" where
  "atoi nptr = sint (word_of_int (fst (strtol nptr)) :: 32 word)"

fun dec :: "nat \<Rightarrow> string" where
  "dec n = (if n < 10 then [''0123456789'' ! n]
            else dec (n div 10) @ [''0123456789'' ! (n mod 10)])"

declare dec.simps [simp del]

definition fmt_d :: "int \<Rightarrow> string" where
  "fmt_d i = (if i < 0 then CHR ''-'' # dec (nat (- i)) else dec (nat i))"



subsection \<open>HTTP CONNECT\<close>

text \<open>
  \<^verbatim>\<open>http_connect\<close>: the request is printed into \<^verbatim>\<open>char buf[2048]\<close> by up to three
  calls of \<^verbatim>\<open>snprintf\<close>, with the credentials encoded by the loop over three bytes at
  a time (\<open>b64_encode\<close>); \<open>http_exchange\<close> writes \<^verbatim>\<open>len\<close> bytes of the array and reads
  the response one byte at a time until it ends with an empty line or fills the
  buffer; \<open>http_reply\<close> is the test of the status line,
  \<^verbatim>\<open>strncmp(buf, "HTTP/1.", 7)\<close> and \<^verbatim>\<open>atoi(buf + 9)\<close>.
\<close>

definition base64 :: string where
  "base64 = ''ABCDEFGHIJKLMNOPQRSTUVWXYZabcdefghijklmnopqrstuvwxyz0123456789+/''"

definition b64 :: "byte \<Rightarrow> char" where
  "b64 i = base64 ! unat i"

fun b64_encode :: "byte list \<Rightarrow> string" where
  "b64_encode [] = []"
| "b64_encode [a] =
     [b64 (drop_bit 2 a), b64 (push_bit 4 (a AND 3) OR drop_bit 4 0), CHR ''='', CHR ''='']"
| "b64_encode [a, b] =
     [b64 (drop_bit 2 a), b64 (push_bit 4 (a AND 3) OR drop_bit 4 b),
      b64 (push_bit 2 (b AND 15) OR drop_bit 6 0), CHR ''='']"
| "b64_encode (a # b # c # rest) =
     [b64 (drop_bit 2 a), b64 (push_bit 4 (a AND 3) OR drop_bit 4 b),
      b64 (push_bit 2 (b AND 15) OR drop_bit 6 c), b64 (c AND 63)] @ b64_encode rest"

definition CRLF :: string where
  "CRLF = [CHR 0x0D, CHR 0x0A]"

text \<open>The whole text of the request, as the format strings give it.\<close>

definition http_request :: "string \<Rightarrow> int \<Rightarrow> string option \<Rightarrow> string option \<Rightarrow> string" where
  "http_request dest_host dest_port uname passwd =
     ''CONNECT '' @ dest_host @ '':'' @ fmt_d dest_port @ '' HTTP/1.1'' @ CRLF @
     ''Host: '' @ dest_host @ '':'' @ fmt_d dest_port @ CRLF @
     (if nonempty uname \<and> nonempty passwd
      then ''Proxy-Authorization: Basic '' @
           b64_encode (bytes_of (take 255 (the uname @ '':'' @ the passwd))) @ CRLF
      else []) @
     CRLF"

function http_read_response ::
  "sock \<Rightarrow> byte list \<Rightarrow> nat \<Rightarrow> (negotiation + byte list) \<times> sock" where
  "http_read_response s buf len =
     (if \<not> len < 2047 then (Inr buf, s)
      else
        case safe_read_with_timeout s 1 10 of
          (n, e, b, s') \<Rightarrow>
            if n \<le> 0 then (Inl (read_failure n e), s')
            else
              let buf' = buf @ b; len' = len + nat n in
              if 4 \<le> len' \<and> take 4 (drop (len' - 4) buf') = bytes_of (CRLF @ CRLF)
              then (Inr buf', s')
              else http_read_response s' buf' len')"
  by pat_completeness auto
termination
  by (relation "measure (\<lambda>(s, buf, len). 2047 - len)") auto

declare http_read_response.simps [simp del]

text \<open>
  \<^verbatim>\<open>len += snprintf(buf + len, sizeof(buf) - len, ...)\<close> on the pair of the string in
  the array and \<^verbatim>\<open>len\<close>: at most \<open>2047 - len\<close> characters and the NUL are stored, and
  the length of the whole text is returned. With \<open>len = 2048\<close> the size is 0 and
  nothing is stored; with \<open>len > 2048\<close> the size wraps around and the text is stored
  behind the array, which is undefined (\<open>None\<close>).
\<close>

definition snprintf_buf :: "string \<times> nat \<Rightarrow> string \<Rightarrow> (string \<times> nat) option" where
  "snprintf_buf bl str =
     (case bl of
        (buf, len) \<Rightarrow>
          if 2048 < len then None
          else Some (buf @ take (2047 - len) str, len + length str))"

definition http_buffer ::
  "string \<Rightarrow> int \<Rightarrow> string option \<Rightarrow> string option \<Rightarrow> (string \<times> nat) option" where
  "http_buffer dest_host dest_port uname passwd =
     (case snprintf_buf ([], 0)
             (''CONNECT '' @ dest_host @ '':'' @ fmt_d dest_port @ '' HTTP/1.1'' @ CRLF @
              ''Host: '' @ dest_host @ '':'' @ fmt_d dest_port @ CRLF) of
        None \<Rightarrow> None
      | Some bl \<Rightarrow>
          (case (if nonempty uname \<and> nonempty passwd
                 then snprintf_buf bl
                        (''Proxy-Authorization: Basic '' @
                         b64_encode (bytes_of (take 255 (the uname @ '':'' @ the passwd))) @ CRLF)
                 else Some bl) of
             None \<Rightarrow> None
           | Some bl' \<Rightarrow> snprintf_buf bl' CRLF))"

text \<open>
  The bytes that \<^verbatim>\<open>safe_write_with_timeout(sockfd, buf, len, 10)\<close> takes from the
  array: the string and, when \<open>len\<close> is 2048, the NUL behind its 2047 characters. A
  greater \<open>len\<close> reads behind the array.
\<close>

definition http_exchange ::
  "sock \<Rightarrow> string \<Rightarrow> int \<Rightarrow> string option \<Rightarrow> string option \<Rightarrow>
   (negotiation + byte list) \<times> sock" where
  "http_exchange s dest_host dest_port uname passwd =
     (case http_buffer dest_host dest_port uname passwd of
        None \<Rightarrow> (Inl Fault, s)
      | Some (str, len) \<Rightarrow>
          if 2048 < len then (Inl Fault, s)
          else
            let buf = take len (bytes_of str @ [0]) in
            case safe_write_with_timeout s buf 10 of
              (n, e, s1) \<Rightarrow>
                if n \<noteq> int len then (Inl (write_failure e), s1)
                else http_read_response s1 [] 0)"

definition http_reply :: "byte list \<Rightarrow> negotiation" where
  "http_reply buf =
     (if take 7 buf \<noteq> bytes_of ''HTTP/1.'' then Not_http
      else
        let status_code = atoi (map unat (drop 9 buf)) in
        if status_code \<noteq> 200 then Rejected status_code else Tunnel_ok)"

definition http_connect ::
  "sock \<Rightarrow> string \<Rightarrow> int \<Rightarrow> string option \<Rightarrow> string option \<Rightarrow> negotiation \<times> sock" where
  "http_connect s dest_host dest_port uname passwd =
     (case http_exchange s dest_host dest_port uname passwd of
        (Inl failure, s') \<Rightarrow> (failure, s')
      | (Inr buf, s') \<Rightarrow> (http_reply buf, s'))"

subsection \<open>SOCKS4\<close>

text \<open>
  \<^verbatim>\<open>socks4_connect\<close>. \<open>resolve\<close> stands for \<^verbatim>\<open>inet_pton\<close> and \<^verbatim>\<open>gethostbyname\<close>: the
  four bytes of the IPv4 address of the destination, if it has one, and the time in
  milliseconds for which the call blocks (\<^verbatim>\<open>gethostbyname\<close> has no timeout;
  \<^verbatim>\<open>inet_pton\<close> converts a dotted quad at once). No poll is made during that time.
\<close>

type_synonym resolve4 = "string \<Rightarrow> byte list option \<times> nat"

definition socks4_connect ::
  "resolve4 \<Rightarrow> sock \<Rightarrow> string \<Rightarrow> int \<Rightarrow> string option \<Rightarrow> negotiation \<times> sock" where
  "socks4_connect resolve s0 dest_host dest_port userid =
     (let s = s0\<lparr>clock := clock s0 + snd (resolve dest_host)\<rparr> in
      case fst (resolve dest_host) of
        None \<Rightarrow> (Resolve_failed, s)
      | Some dest_addr \<Rightarrow>
          let uid = (case userid of None \<Rightarrow> [] | Some u \<Rightarrow> u) in
          if 503 < length uid then (Fault, s)
          else
            let buf = [4, 1, port_hi dest_port, port_lo dest_port] @ take 4 dest_addr @
                      bytes_of uid @ [0]
            in case safe_write_with_timeout s buf 10 of
                 (n, e, s1) \<Rightarrow>
                   if n \<noteq> int (length buf) then (write_failure e, s1)
                   else
                     (case safe_read_with_timeout s1 8 10 of
                        (n, e, rep, s2) \<Rightarrow>
                          if n \<noteq> 8 then (read_failure n e, s2)
                          else if rep ! 0 \<noteq> 0 \<or> rep ! 1 \<noteq> 90
                          then (Rejected (uint (rep ! 1)), s2)
                          else (Tunnel_ok, s2)))"

text \<open>An HTTP proxy that accepts the request and sends \<open>response\<close> after 120 ms.\<close>

definition mock_http :: "string \<Rightarrow> sock" where
  "mock_http response =
     \<lparr>rx = [(120, Rdata (bytes_of response))], tx = [(0, Wacc 2048)],
      sent = [], clock = 0, polls = []\<rparr>"

definition http_200 :: string where
  "http_200 = ''HTTP/1.1 200 OK'' @ CRLF @ CRLF"


lemmas io_eval =
  safe_write_with_timeout_def safe_read_with_timeout_def safe_read_loop.simps
  safe_write_loop.simps Let_def bytes_of_def nonempty_def write_failure_def read_failure_def

lemma snprintf_fits:
  "length buf = len \<Longrightarrow> len + length str \<le> 2047 \<Longrightarrow>
   snprintf_buf (buf, len) str = Some (buf @ str, length (buf @ str))"
  by (simp add: snprintf_buf_def)

lemma http_buffer_fits:
  assumes "length (http_request dest_host dest_port uname passwd) \<le> 2047"
  shows "http_buffer dest_host dest_port uname passwd =
     Some (http_request dest_host dest_port uname passwd,
           length (http_request dest_host dest_port uname passwd))"
proof -
  define A where "A = ''CONNECT '' @ dest_host @ '':'' @ fmt_d dest_port @ '' HTTP/1.1'' @ CRLF @
              ''Host: '' @ dest_host @ '':'' @ fmt_d dest_port @ CRLF"
  define B where "B = ''Proxy-Authorization: Basic '' @
                         b64_encode (bytes_of (take 255 (the uname @ '':'' @ the passwd))) @ CRLF"
  have rq: "http_request dest_host dest_port uname passwd =
            A @ (if nonempty uname \<and> nonempty passwd then B else []) @ CRLF"
    unfolding http_request_def A_def B_def by simp
  have hb: "http_buffer dest_host dest_port uname passwd =
     (case snprintf_buf ([], 0) A of
        None \<Rightarrow> None
      | Some bl \<Rightarrow>
          (case (if nonempty uname \<and> nonempty passwd then snprintf_buf bl B else Some bl) of
             None \<Rightarrow> None
           | Some bl' \<Rightarrow> snprintf_buf bl' CRLF))"
    unfolding http_buffer_def A_def B_def by (rule refl)
  show ?thesis
  proof (cases "nonempty uname \<and> nonempty passwd")
    case True
    with assms rq have len: "length A + length B + length CRLF \<le> 2047" by simp
    then have 1: "snprintf_buf ([], 0) A = Some (A, length A)"
      using snprintf_fits [of "[]" 0 A] by simp
    from len have 2: "snprintf_buf (A, length A) B = Some (A @ B, length (A @ B))"
      by (intro snprintf_fits) simp_all
    from len have 3: "snprintf_buf (A @ B, length (A @ B)) CRLF =
        Some ((A @ B) @ CRLF, length ((A @ B) @ CRLF))"
      by (intro snprintf_fits) simp_all
    show ?thesis unfolding hb rq using 3 by (simp add: 1 2 True)
  next
    case False
    with assms rq have len: "length A + length CRLF \<le> 2047" by auto
    then have 1: "snprintf_buf ([], 0) A = Some (A, length A)"
      using snprintf_fits [of "[]" 0 A] by simp
    from len have 3: "snprintf_buf (A, length A) CRLF = Some (A @ CRLF, length (A @ CRLF))"
      by (intro snprintf_fits) simp_all
    show ?thesis unfolding hb rq using 3 by (simp add: 1 False)
  qed
qed

lemma http_exchange_fits:
  "length (http_request dest_host dest_port uname passwd) \<le> 2047 \<Longrightarrow>
   http_exchange s dest_host dest_port uname passwd =
     (let buf = bytes_of (http_request dest_host dest_port uname passwd) in
      case safe_write_with_timeout s buf 10 of
        (n, e, s1) \<Rightarrow>
          if n \<noteq> int (length buf) then (Inl (write_failure e), s1)
          else http_read_response s1 [] 0)"
  by (simp add: http_exchange_def http_buffer_fits Let_def bytes_of_def)

lemma http_request_a_b:
  "http_request dest_host dest_port (Some ''a'') (Some ''b'') =
   ''CONNECT '' @ dest_host @ '':'' @ fmt_d dest_port @ '' HTTP/1.1'' @ CRLF @
   ''Host: '' @ dest_host @ '':'' @ fmt_d dest_port @ CRLF @
   ''Proxy-Authorization: Basic YTpi'' @ CRLF @ CRLF"
  by (simp add: http_request_def nonempty_def bytes_of_def b64_def base64_def)






lemma safe_write_loop_sent:
  "tot \<le> length buf \<Longrightarrow>
   fst (safe_write_loop t buf tot s) = int (length buf) \<longrightarrow>
   sent (snd (snd (safe_write_loop t buf tot s))) = sent s @ drop tot buf"
proof (induction t buf tot s rule: safe_write_loop.induct)
  case (1 t buf tot s)
  note IH = "1.IH"(1) [OF _ _ refl refl _ refl _ refl refl refl]
    "1.IH"(2) [OF _ _ refl refl _ refl _ refl refl refl]
    "1.IH"(3) [OF _ _ refl refl _ refl _ refl refl refl]
  have td: "take n (drop tot buf) @ drop (tot + n) buf = drop tot buf" for n
    by (metis append_take_drop_id drop_drop add.commute)
  show ?case
    apply (subst (1 2) safe_write_loop.simps)
    using IH "1.prems"
    apply (auto simp: Let_def td split: list.splits wr_step.splits)
    done
qed

lemma safe_read_loop_sent:
  "sent (snd (snd (snd (safe_read_loop t count buf s)))) = sent s \<and>
   tx (snd (snd (snd (safe_read_loop t count buf s)))) = tx s"
proof (induction t count buf s rule: safe_read_loop.induct)
  case (1 t count buf s)
  note IH = "1.IH"(1) [OF _ _ refl refl _ refl _ refl refl refl]
    "1.IH"(2) [OF _ _ refl refl _ refl _ refl refl refl]
    "1.IH"(3) [OF _ _ refl refl _ refl _ refl refl _ refl]
  show ?case
    apply (subst (1 2) safe_read_loop.simps)
    using IH
    apply (auto simp: Let_def split: list.splits rd_step.splits)
    done
qed

lemma wr_sent:
  "safe_write_with_timeout s buf t = (int (length buf), e, s') \<Longrightarrow> sent s' = sent s @ buf"
  using safe_write_loop_sent [of 0 buf t s] by (simp add: safe_write_with_timeout_def)

lemma rd_sent:
  "safe_read_with_timeout s c t = (n, e, b, s') \<Longrightarrow> sent s' = sent s"
  using safe_read_loop_sent [of t c "[]" s] by (simp add: safe_read_with_timeout_def)

lemma failure_not_ok [simp]:
  "write_failure e \<noteq> Tunnel_ok" "read_failure n e \<noteq> Tunnel_ok"
  by (simp_all add: write_failure_def read_failure_def)

lemma socks5_drain_sent: "socks5_drain s hdr = (r, s') \<Longrightarrow> sent s' = sent s"
  by (auto simp: socks5_drain_def Let_def split: if_splits prod.splits dest!: rd_sent)

lemma socks5_tunnel_sent:
  "socks5_tunnel s dest_host dest_port = (Tunnel_ok, s') \<Longrightarrow>
   sent s' = sent s @ socks5_request dest_host dest_port"
  by (auto simp: socks5_tunnel_def Let_def split: if_splits prod.splits
      dest!: rd_sent wr_sent socks5_drain_sent)

lemma socks5_connect_sent:
  "socks5_connect s dest_host dest_port uname passwd = (Tunnel_ok, s') \<Longrightarrow>
   \<exists>auth. sent s' = sent s @ socks5_greeting uname passwd @ auth @
                  socks5_request dest_host dest_port"
  by (auto simp: socks5_connect_def Let_def split: if_splits prod.splits option.splits
      dest!: rd_sent wr_sent socks5_tunnel_sent)

lemmas socks5_eval =
  socks5_connect_def mock_socks5_def socks5_greeting_def socks5_tunnel_def socks5_request_def
  port_hi_def port_lo_def socks5_drain_def

lemma socks5_mock:
  "socks5_connect mock_socks5 ''example.org'' 6667 None None =
   (Tunnel_ok, \<lparr>rx = [], tx = [],
     sent = [0x05, 0x01, 0x00] @ [0x05, 0x01, 0x00, 0x03, 0x0B] @ bytes_of ''example.org'' @ [0x1A, 0x0B],
     clock = 55, polls = [(0, 10000), (0, 10000), (20, 10000), (20, 10000), (55, 10000)]\<rparr>)"
  by (simp add: socks5_eval io_eval)


text \<open>
  Claim C5. For a CONNECT to example.org:6667 without credentials \<^verbatim>\<open>socks5_connect\<close>
  writes \<open>05 01 00\<close>, then, after the reply \<open>05 00\<close>, the request
  \<open>05 01 00 03 0B "example.org" 1A 0B\<close>, and it succeeds on the reply \<open>05 00 00 01\<close>
  followed by six bytes. Whatever the destination is, a call that succeeds has
  written the greeting, at most an authentication message, and then a request with
  address type 3 that carries the host string as it was given and the port.
\<close>

theorem socks5_connect_wire:
  "socks5_connect mock_socks5 ''example.org'' 6667 None None =
   (Tunnel_ok, \<lparr>rx = [], tx = [],
     sent = [0x05, 0x01, 0x00] @ [0x05, 0x01, 0x00, 0x03, 0x0B] @ bytes_of ''example.org'' @ [0x1A, 0x0B],
     clock = 55, polls = [(0, 10000), (0, 10000), (20, 10000), (20, 10000), (55, 10000)]\<rparr>) \<and>
   (fst (socks5_connect s dest_host dest_port uname passwd) = Tunnel_ok \<longrightarrow>
    (\<exists>auth. sent (snd (socks5_connect s dest_host dest_port uname passwd)) =
       sent s @ socks5_greeting uname passwd @ auth @
       [0x05, 0x01, 0x00, 0x03, of_nat (length dest_host)] @ bytes_of dest_host @
       [port_hi dest_port, port_lo dest_port]))"
proof (intro conjI impI)
  show "socks5_connect mock_socks5 ''example.org'' 6667 None None =
   (Tunnel_ok, \<lparr>rx = [], tx = [],
     sent = [0x05, 0x01, 0x00] @ [0x05, 0x01, 0x00, 0x03, 0x0B] @ bytes_of ''example.org'' @ [0x1A, 0x0B],
     clock = 55, polls = [(0, 10000), (0, 10000), (20, 10000), (20, 10000), (55, 10000)]\<rparr>)"
    by (rule socks5_mock)
next
  assume ok: "fst (socks5_connect s dest_host dest_port uname passwd) = Tunnel_ok"
  obtain s' where "socks5_connect s dest_host dest_port uname passwd = (Tunnel_ok, s')"
    using ok by (cases "socks5_connect s dest_host dest_port uname passwd") simp
  from socks5_connect_sent [OF this] this
  show "\<exists>auth. sent (snd (socks5_connect s dest_host dest_port uname passwd)) =
       sent s @ socks5_greeting uname passwd @ auth @
       [0x05, 0x01, 0x00, 0x03, of_nat (length dest_host)] @ bytes_of dest_host @
       [port_hi dest_port, port_lo dest_port]"
    by (simp add: socks5_request_def)
qed

text \<open>The same server, on a socket that has carried a byte before; the destination is a literal IP.\<close>

definition mock_socks5_ip :: sock where
  "mock_socks5_ip = mock_socks5\<lparr>sent := [0xAA]\<rparr>"

theorem socks5_connect_wire_witness:
  "fst (socks5_connect mock_socks5_ip ''192.0.2.7'' 6667 None None) = Tunnel_ok \<and>
   sent (snd (socks5_connect mock_socks5_ip ''192.0.2.7'' 6667 None None)) =
     [0xAA] @ [0x05, 0x01, 0x00] @ [0x05, 0x01, 0x00, 0x03, 0x09] @ bytes_of ''192.0.2.7'' @ [0x1A, 0x0B]"
proof -
  have ok: "fst (socks5_connect mock_socks5_ip ''192.0.2.7'' 6667 None None) = Tunnel_ok"
    by (simp add: mock_socks5_ip_def socks5_eval io_eval)
  with socks5_connect_wire [of mock_socks5_ip "''192.0.2.7''" 6667 None None]
  obtain auth where
    "sent (snd (socks5_connect mock_socks5_ip ''192.0.2.7'' 6667 None None)) =
       sent mock_socks5_ip @ socks5_greeting None None @ auth @
       [0x05, 0x01, 0x00, 0x03, of_nat (length ''192.0.2.7'')] @ bytes_of ''192.0.2.7'' @
       [port_hi 6667, port_lo 6667]"
    by blast
  moreover have "sent (snd (socks5_connect mock_socks5_ip ''192.0.2.7'' 6667 None None)) =
     [0xAA] @ [0x05, 0x01, 0x00] @ [0x05, 0x01, 0x00, 0x03, 0x09] @ bytes_of ''192.0.2.7'' @ [0x1A, 0x0B]"
    by (simp add: mock_socks5_ip_def socks5_eval io_eval)
  ultimately show ?thesis using ok by simp
qed

section \<open>The line parser (proxy.c)\<close>

text \<open>
  \<^verbatim>\<open>parse_proxy_line\<close> works in place on a copy of the line, cutting it into tokens by
  writing NUL characters; the model computes the same tokens as strings. Name
  resolution is the environment: \<open>getaddrinfo node service family\<close> is the first
  address \<^verbatim>\<open>getaddrinfo\<close> returns for the hint \<open>family\<close>, with its own family, or
  \<open>None\<close> when the lookup fails. Memory allocation is taken to succeed.
\<close>

datatype ai_family = AF_UNSPEC | AF_INET | AF_INET6 | AF_UNIX

type_synonym resolver = "string \<Rightarrow> string \<Rightarrow> ai_family \<Rightarrow> (ai_family \<times> sockaddr) option"

definition MAX_PROXY_LINE :: nat where
  "MAX_PROXY_LINE = 512"

text \<open>\<^verbatim>\<open>trim_whitespace\<close>, and the two halves of a string around the first (\<^verbatim>\<open>strchr\<close>)
  or the last (\<^verbatim>\<open>strrchr\<close>) occurrence of a character; \<open>strstr\<close> gives the offset of
  the first occurrence of the needle.\<close>

definition space :: "char \<Rightarrow> bool" where
  "space c = isspace (of_char c)"

definition trim_whitespace :: "string \<Rightarrow> string" where
  "trim_whitespace s = rev (dropWhile space (rev (dropWhile space s)))"

definition before_chr :: "char \<Rightarrow> string \<Rightarrow> string" where
  "before_chr c s = takeWhile (\<lambda>x. x \<noteq> c) s"

definition after_chr :: "char \<Rightarrow> string \<Rightarrow> string" where
  "after_chr c s = drop 1 (dropWhile (\<lambda>x. x \<noteq> c) s)"

definition before_rchr :: "char \<Rightarrow> string \<Rightarrow> string" where
  "before_rchr c s = rev (after_chr c (rev s))"

definition after_rchr :: "char \<Rightarrow> string \<Rightarrow> string" where
  "after_rchr c s = rev (before_chr c (rev s))"

fun strstr :: "string \<Rightarrow> string \<Rightarrow> nat option" where
  "strstr [] needle = (if needle = [] then Some 0 else None)"
| "strstr (c # cs) needle =
     (if take (length needle) (c # cs) = needle then Some 0
      else map_option Suc (strstr cs needle))"

text \<open>
  Modelled from the spec: \<^verbatim>\<open>x_strcasecmp\<close> is not among the sources; the scheme is
  compared without regard to case (section 4.1, "case-insensitive"), so it returns 0
  exactly when the two strings are equal up to the case of ASCII letters.
\<close>

definition upper :: "nat \<Rightarrow> bool" where
  "upper c = (65 \<le> c \<and> c \<le> 90)"

definition same_letter :: "char \<Rightarrow> char \<Rightarrow> bool" where
  "same_letter a b =
     (a = b \<or> (upper (of_char a) \<and> of_char a + 32 = (of_char b :: nat)) \<or>
              (upper (of_char b) \<and> of_char b + 32 = (of_char a :: nat)))"

definition x_strcasecmp :: "string \<Rightarrow> string \<Rightarrow> int" where
  "x_strcasecmp a b = (if list_all2 same_letter a b then 0 else 1)"

text \<open>
  The loop that cuts a line without brackets at up to four colons: the parts, and
  what is left behind the fourth colon (\<^verbatim>\<open>tmp\<close>, NULL when a part had no colon).
\<close>

fun split_parts :: "nat \<Rightarrow> string \<Rightarrow> string list \<times> string option" where
  "split_parts 0 tmp = ([], Some tmp)"
| "split_parts (Suc k) tmp =
     (if CHR '':'' \<in> set tmp
      then case split_parts k (after_chr CHR '':'' tmp) of
             (ps, r) \<Rightarrow> (before_chr CHR '':'' tmp # ps, r)
      else ([tmp], None))"

definition scheme_type :: "string \<Rightarrow> proxy_type \<Rightarrow> proxy_type" where
  "scheme_type scheme ptype =
     (if x_strcasecmp scheme ''http'' = 0 then PROXY_HTTP
      else if x_strcasecmp scheme ''https'' = 0 then PROXY_HTTPS
      else if x_strcasecmp scheme ''socks4'' = 0 then PROXY_SOCKS4
      else if x_strcasecmp scheme ''socks5'' = 0 then PROXY_SOCKS5
      else ptype)"

text \<open>
  The tokens of the two branches: \<open>bracket_tokens\<close> for \<^verbatim>\<open>[addr]:PORT...\<close> and
  \<open>plain_tokens\<close> for \<^verbatim>\<open>HOST:PORT...\<close>, where the fourth field takes the rest.
\<close>

record tokens =
  host_token :: string
  port_token :: string
  suffix_user :: "string option"
  suffix_pass :: "string option"
  bracketed :: bool

definition bracket_tokens :: "string \<Rightarrow> tokens option" where
  "bracket_tokens work =
     (if CHR '']'' \<notin> set work then None
      else
        let h = trim_whitespace (before_chr CHR '']'' (drop 1 work));
            rest = trim_whitespace (after_chr CHR '']'' work)
        in if take 1 rest \<noteq> '':'' then None
           else
             let rest = trim_whitespace (drop 1 rest) in
             if rest = [] then None
             else
               let su = (if CHR '':'' \<in> set rest
                         then Some (trim_whitespace (after_chr CHR '':'' rest)) else None);
                   split = (case su of None \<Rightarrow> False
                            | Some u \<Rightarrow> u \<noteq> [] \<and> CHR '':'' \<in> set u)
               in Some \<lparr>host_token = h,
                        port_token = trim_whitespace (before_chr CHR '':'' rest),
                        suffix_user = (if split then map_option (before_chr CHR '':'') su else su),
                        suffix_pass = (if split
                                       then map_option (\<lambda>u. trim_whitespace (after_chr CHR '':'' u)) su
                                       else None),
                        bracketed = True\<rparr>)"

definition plain_tokens :: "string \<Rightarrow> tokens option" where
  "plain_tokens work =
     (case split_parts 4 work of
        (parts, tmp) \<Rightarrow>
          let parts = (case tmp of
                         None \<Rightarrow> parts
                       | Some t \<Rightarrow>
                           if trim_whitespace t \<noteq> []
                           then take 3 parts @ [parts ! 3 @ '':'' @ trim_whitespace t]
                           else parts);
              part_count = length parts
          in if part_count < 2 then None
             else
               let h = trim_whitespace (parts ! 0);
                   pt = trim_whitespace (parts ! 1)
               in if h = [] \<or> pt = [] then None
                  else Some \<lparr>host_token = h, port_token = pt,
                             suffix_user = (if 3 \<le> part_count
                                            then Some (trim_whitespace (parts ! 2)) else None),
                             suffix_pass = (if 4 \<le> part_count
                                            then Some (trim_whitespace (parts ! 3)) else None),
                             bracketed = False\<rparr>)"

definition given :: "string option \<Rightarrow> string option" where
  "given tok = (case tok of None \<Rightarrow> None | Some t \<Rightarrow> if t = [] then None else Some t)"

definition first_given :: "string option \<Rightarrow> string option \<Rightarrow> string option" where
  "first_given a b = (case given a of None \<Rightarrow> given b | Some t \<Rightarrow> Some t)"

definition resolve_proxy :: "resolver \<Rightarrow> bool \<Rightarrow> proxy \<Rightarrow> proxy option" where
  "resolve_proxy getaddrinfo v6 p =
     (case host p of
        None \<Rightarrow> None
      | Some node \<Rightarrow>
          (case getaddrinfo node (fmt_d (port p)) (if v6 then AF_INET6 else AF_UNSPEC) of
             None \<Rightarrow> None
           | Some (family, sa) \<Rightarrow>
               if family = AF_INET6 then Some (p\<lparr>addr6 := Some sa, is_ipv6 := 1\<rparr>)
               else if family = AF_INET then Some (p\<lparr>addr := Some sa, is_ipv6 := 0\<rparr>)
               else None))"

definition parse_proxy_line :: "resolver \<Rightarrow> string \<Rightarrow> proxy_type \<Rightarrow> proxy option" where
  "parse_proxy_line getaddrinfo line default_type =
     (if line = [] then None
      else
        let buffer = take (MAX_PROXY_LINE - 1) line;
            buffer = takeWhile (\<lambda>c. c \<noteq> CHR 0x0A \<and> c \<noteq> CHR 0x0D) buffer;
            work = trim_whitespace buffer
        in if work = [] \<or> hd work = CHR ''#'' then None
           else
             let peel = (2 < length work \<and> hd work = CHR ''['' \<and> last work = CHR '']'' \<and>
                         CHR ''@'' \<in> set (tl work));
                 work = (if peel then trim_whitespace (butlast (tl work)) else work)
             in if work = [] then None
                else
                  let scheme_end = strstr work ''://'';
                      ptype = (case scheme_end of
                                 None \<Rightarrow> default_type
                               | Some i \<Rightarrow> scheme_type (take i work) default_type);
                      work = (case scheme_end of
                                None \<Rightarrow> work
                              | Some i \<Rightarrow> trim_whitespace (drop (i + 3) work));
                      at_sign = (CHR ''@'' \<in> set work);
                      user_pass = (if at_sign then trim_whitespace (before_rchr CHR ''@'' work)
                                   else []);
                      work = (if at_sign then trim_whitespace (after_rchr CHR ''@'' work)
                              else trim_whitespace work);
                      pass_sep = (CHR '':'' \<in> set user_pass);
                      prefix_user = (if user_pass = [] then None
                                     else if pass_sep
                                     then Some (trim_whitespace (before_chr CHR '':'' user_pass))
                                     else Some user_pass);
                      prefix_pass = (if user_pass \<noteq> [] \<and> pass_sep
                                     then Some (trim_whitespace (after_chr CHR '':'' user_pass))
                                     else None)
                  in if work = [] then None
                     else
                       case (if hd work = CHR ''['' then bracket_tokens work
                             else plain_tokens work) of
                         None \<Rightarrow> None
                       | Some tok \<Rightarrow>
                           if host_token tok = [] \<or> port_token tok = [] then None
                           else
                             case strtol (map of_char (port_token tok)) of
                               (pnum, used) \<Rightarrow>
                                 if dropWhile space (drop used (port_token tok)) \<noteq> [] \<or>
                                    pnum \<le> 0 \<or> 65535 < pnum
                                 then None
                                 else
                                   resolve_proxy getaddrinfo (bracketed tok)
                                     (calloc_proxy
                                        \<lparr>host := Some (host_token tok), port := pnum,
                                         username := first_given prefix_user (suffix_user tok),
                                         password := first_given prefix_pass (suffix_pass tok),
                                         type := ptype\<rparr>))"

text \<open>A resolver that knows numeric addresses only.\<close>

definition numeric_hosts :: resolver where
  "numeric_hosts node service family =
     (if CHR '':'' \<in> set node then Some (AF_INET6, Sockaddr_in6 node)
      else if family = AF_INET6 then None
      else Some (AF_INET, Sockaddr_in node))"


text \<open>A line that is blank, or whose first character that is not white space is \<open>#\<close>.\<close>

definition blank_or_comment :: "string \<Rightarrow> bool" where
  "blank_or_comment line =
     (case dropWhile space line of [] \<Rightarrow> True | c # _ \<Rightarrow> c = CHR ''#'')"

lemma split_parts_4:
  "split_parts 4 tmp = split_parts (Suc (Suc (Suc (Suc 0)))) tmp"
  by (simp add: numeral_eq_Suc)

lemmas parse_eval = split_parts_4
  parse_proxy_line_def MAX_PROXY_LINE_def trim_whitespace_def space_def isspace_def
  strtol_def isdigit_def LONG_MAX_def LONG_MIN_def before_chr_def after_chr_def
  before_rchr_def after_rchr_def scheme_type_def x_strcasecmp_def same_letter_def upper_def
  bracket_tokens_def plain_tokens_def given_def first_given_def resolve_proxy_def
  fmt_d_def dec.simps Let_def

lemma parse_scheme_example:
  assumes "getaddrinfo ''198.51.100.4'' ''1080'' AF_UNSPEC = Some (AF_INET, sa)"
  shows "parse_proxy_line getaddrinfo ''socks5://u:p@198.51.100.4:1080'' default_type =
         Some (calloc_proxy\<lparr>host := Some ''198.51.100.4'', port := 1080,
                 username := Some ''u'', password := Some ''p'', type := PROXY_SOCKS5,
                 is_ipv6 := 0, addr := Some sa\<rparr>)"
  using assms by (simp add: parse_eval calloc_proxy_def)

lemma parse_bracket_example:
  assumes "getaddrinfo ''2001:db8::1'' ''1080'' AF_INET6 = Some (AF_INET6, sa)"
  shows "parse_proxy_line getaddrinfo ''[2001:db8::1]:1080:alice:s3cret'' default_type =
         Some (calloc_proxy\<lparr>host := Some ''2001:db8::1'', port := 1080,
                 username := Some ''alice'', password := Some ''s3cret'', type := default_type,
                 is_ipv6 := 1, addr6 := Some sa\<rparr>)"
  using assms by (simp add: parse_eval calloc_proxy_def)

lemma not_space_hash: "\<not> space CHR ''#''"
  by (simp add: space_def isspace_def)

lemma dropWhile_take_blank:
  assumes "blank_or_comment line"
  shows "blank_or_comment (take k line)"
proof -
  let ?sps = "takeWhile space line" and ?rest = "dropWhile space line"
  have line: "line = ?sps @ ?rest" by simp
  have "take k line = take k ?sps @ take (k - length ?sps) ?rest"
    by (subst line) (simp only: take_append)
  moreover have "\<forall>x \<in> set (take k ?sps). space x"
    by (meson in_set_takeD set_takeWhileD)
  ultimately have dw: "dropWhile space (take k line) =
                       dropWhile space (take (k - length ?sps) ?rest)"
    by (simp add: dropWhile_append2)
  show ?thesis
  proof (cases ?rest)
    case Nil
    have e: "dropWhile space (take k line) = []" using dw unfolding Nil by simp
    show ?thesis unfolding blank_or_comment_def e by simp
  next
    case (Cons c cs)
    with assms have c: "c = CHR ''#''" by (simp add: blank_or_comment_def)
    show ?thesis
    proof (cases "k - length ?sps")
      case 0
      have e: "dropWhile space (take k line) = []" using dw unfolding 0 by simp
      show ?thesis unfolding blank_or_comment_def e by simp
    next
      case (Suc j)
      have e: "dropWhile space (take k line) = c # take j cs"
        using dw not_space_hash unfolding Suc Cons c by simp
      show ?thesis unfolding blank_or_comment_def e using c by simp
    qed
  qed
qed

lemma takeWhile_blank:
  "blank_or_comment line \<Longrightarrow> blank_or_comment (takeWhile P line)"
  using dropWhile_take_blank [of line "length (takeWhile P line)"]
  by (simp add: takeWhile_eq_take [symmetric])

lemma trim_blank:
  assumes "blank_or_comment s"
  shows "trim_whitespace s = [] \<or> hd (trim_whitespace s) = CHR ''#''"
proof (cases "dropWhile space s")
  case Nil
  show ?thesis unfolding trim_whitespace_def Nil by simp
next
  case (Cons c cs)
  with assms have c: "c = CHR ''#''" by (simp add: blank_or_comment_def)
  have "dropWhile space (rev cs @ [c]) = dropWhile space (rev cs) @ [c] \<or>
        dropWhile space (rev cs @ [c]) = [c]"
    using c by (induction "rev cs") (auto simp: not_space_hash dropWhile_append)
  then have "hd (rev (dropWhile space (rev cs @ [c]))) = c"
    by auto
  then show ?thesis unfolding trim_whitespace_def Cons using c by simp
qed

lemma parse_blank_or_comment:
  assumes "blank_or_comment line"
  shows "parse_proxy_line getaddrinfo line default_type = None"
proof -
  from assms have "blank_or_comment
     (takeWhile (\<lambda>c. c \<noteq> CHR 0x0A \<and> c \<noteq> CHR 0x0D) (take (MAX_PROXY_LINE - 1) line))"
    by (intro takeWhile_blank dropWhile_take_blank)
  from trim_blank [OF this] show ?thesis
    by (auto simp: parse_proxy_line_def Let_def)
qed

text \<open>
  Claim C7. The line \<open>socks5://u:p@198.51.100.4:1080\<close> gives the host \<open>198.51.100.4\<close>,
  port 1080, user \<open>u\<close>, password \<open>p\<close>, type SOCKS5 and \<^verbatim>\<open>is_ipv6 = 0\<close>; the line
  \<open>[2001:db8::1]:1080:alice:s3cret\<close> gives the host \<open>2001:db8::1\<close>, port 1080, user
  \<open>alice\<close>, password \<open>s3cret\<close>, \<^verbatim>\<open>is_ipv6 = 1\<close> and the caller's default type (when the
  resolver knows the two literal addresses); a line that is blank or starts with
  \<open>#\<close> after white space gives no record.
\<close>

theorem parse_proxy_line_examples:
  "(getaddrinfo ''198.51.100.4'' ''1080'' AF_UNSPEC = Some (AF_INET, sa) \<longrightarrow>
    parse_proxy_line getaddrinfo ''socks5://u:p@198.51.100.4:1080'' default_type =
      Some (calloc_proxy\<lparr>host := Some ''198.51.100.4'', port := 1080,
              username := Some ''u'', password := Some ''p'', type := PROXY_SOCKS5,
              is_ipv6 := 0, addr := Some sa\<rparr>)) \<and>
   (getaddrinfo ''2001:db8::1'' ''1080'' AF_INET6 = Some (AF_INET6, sa6) \<longrightarrow>
    parse_proxy_line getaddrinfo ''[2001:db8::1]:1080:alice:s3cret'' default_type =
      Some (calloc_proxy\<lparr>host := Some ''2001:db8::1'', port := 1080,
              username := Some ''alice'', password := Some ''s3cret'', type := default_type,
              is_ipv6 := 1, addr6 := Some sa6\<rparr>)) \<and>
   (blank_or_comment line \<longrightarrow> parse_proxy_line getaddrinfo line default_type = None)"
  by (intro conjI impI parse_scheme_example parse_bracket_example parse_blank_or_comment)

theorem parse_proxy_line_examples_witness:
  "parse_proxy_line numeric_hosts ''socks5://u:p@198.51.100.4:1080'' PROXY_HTTP =
      Some (calloc_proxy\<lparr>host := Some ''198.51.100.4'', port := 1080,
              username := Some ''u'', password := Some ''p'', type := PROXY_SOCKS5,
              is_ipv6 := 0, addr := Some (Sockaddr_in ''198.51.100.4'')\<rparr>) \<and>
   parse_proxy_line numeric_hosts ''[2001:db8::1]:1080:alice:s3cret'' PROXY_HTTP =
      Some (calloc_proxy\<lparr>host := Some ''2001:db8::1'', port := 1080,
              username := Some ''alice'', password := Some ''s3cret'', type := PROXY_HTTP,
              is_ipv6 := 1, addr6 := Some (Sockaddr_in6 ''2001:db8::1'')\<rparr>) \<and>
   blank_or_comment ''   # comment  '' \<and>
   parse_proxy_line numeric_hosts ''   # comment  '' PROXY_HTTP = None"
proof -
  have a: "numeric_hosts ''198.51.100.4'' ''1080'' AF_UNSPEC =
           Some (AF_INET, Sockaddr_in ''198.51.100.4'')"
    by (simp add: numeric_hosts_def)
  have b: "numeric_hosts ''2001:db8::1'' ''1080'' AF_INET6 =
           Some (AF_INET6, Sockaddr_in6 ''2001:db8::1'')"
    by (simp add: numeric_hosts_def)
  have c: "blank_or_comment ''   # comment  ''"
    by (simp add: blank_or_comment_def space_def isspace_def)
  from a b c
    parse_proxy_line_examples [of numeric_hosts "Sockaddr_in ''198.51.100.4''" PROXY_HTTP
      "Sockaddr_in6 ''2001:db8::1''" "''   # comment  ''"]
  show ?thesis by simp
qed

section \<open>Loading and clearing the pool (proxy.c)\<close>

text \<open>
  \<^verbatim>\<open>del_proxy\<close> frees a node; \<^verbatim>\<open>del_proxy_all\<close> walks the list and frees every node,
  reading \<^verbatim>\<open>p->next\<close> before the node goes. A loop over a linked list need not end
  and may run into memory that is not allocated: such loops are partial functions,
  \<open>None\<close> when the C program has no defined result.
\<close>

definition del_proxy :: "addr \<Rightarrow> state \<Rightarrow> state" where
  "del_proxy p s = s\<lparr>heap := (heap s)(p := None)\<rparr>"

partial_function (option) del_proxy_loop :: "state \<Rightarrow> addr option \<Rightarrow> state option" where
  "del_proxy_loop s p =
     (case p of
        None \<Rightarrow> Some s
      | Some a \<Rightarrow>
          (case heap s a of
             None \<Rightarrow> None
           | Some n \<Rightarrow> del_proxy_loop (del_proxy a s) (next n)))"

definition del_proxy_all :: "state \<Rightarrow> state option" where
  "del_proxy_all s =
     (case del_proxy_loop s (proxy_list s) of
        None \<Rightarrow> None
      | Some s' \<Rightarrow>
          Some (s'\<lparr>proxy_list := None, proxy_tail := None, current_proxy := None,
                   proxy_count := 0\<rparr>))"

text \<open>
  \<^verbatim>\<open>fgets(line, n, fp)\<close> on the rest \<open>fp\<close> of a file: up to \<open>n - 1\<close> characters, ending
  behind the first newline; \<open>None\<close> at the end of the file.
\<close>

definition fgets :: "nat \<Rightarrow> string \<Rightarrow> (string \<times> string) option" where
  "fgets n fp =
     (if fp = [] then None
      else
        let pre = takeWhile (\<lambda>c. c \<noteq> CHR 0x0A) fp in
        if n - 1 \<le> length pre then Some (take (n - 1) fp, drop (n - 1) fp)
        else Some (take (length pre + 1) fp, drop (length pre + 1) fp))"

text \<open>
  The body of the loop of \<^verbatim>\<open>load_proxies\<close> for a parsed record: it lives in a new node
  at \<open>brk\<close> and is linked behind the tail.
\<close>

definition link_tail :: "proxy \<Rightarrow> state \<Rightarrow> state option" where
  "link_tail p s =
     (let a = brk s; s1 = s\<lparr>heap := (heap s)(a := Some p), brk := Suc a\<rparr> in
      if proxy_list s1 = None
      then Some (s1\<lparr>proxy_list := Some a, proxy_tail := Some a\<rparr>)
      else
        case proxy_tail s1 of
          None \<Rightarrow> None
        | Some t \<Rightarrow>
            (case heap s1 t of
               None \<Rightarrow> None
             | Some tn \<Rightarrow>
                 Some (s1\<lparr>heap := (heap s1)(t := Some (tn\<lparr>next := Some a\<rparr>),
                                              a := Some (p\<lparr>parent := Some t\<rparr>)),
                          proxy_tail := Some a\<rparr>)))"

function load_loop ::
  "resolver \<Rightarrow> proxy_type \<Rightarrow> string \<Rightarrow> int \<Rightarrow> state \<Rightarrow> (int \<times> state) option" where
  "load_loop getaddrinfo default_type fp count s =
     (case fgets MAX_PROXY_LINE fp of
        None \<Rightarrow> Some (count, s)
      | Some (line, fp') \<Rightarrow>
          (case parse_proxy_line getaddrinfo line default_type of
             None \<Rightarrow> load_loop getaddrinfo default_type fp' count s
           | Some p \<Rightarrow>
               (case link_tail p s of
                  None \<Rightarrow> None
                | Some s' \<Rightarrow> load_loop getaddrinfo default_type fp' (count + 1) s')))"
  by pat_completeness auto
termination
  by (relation "measure (\<lambda>(g, d, fp, c, s). length fp)")
     (auto simp: fgets_def MAX_PROXY_LINE_def Let_def split: if_splits)

declare load_loop.simps [simp del]

text \<open>
  \<^verbatim>\<open>load_proxies\<close>; \<open>fopen filename\<close> is the content of the file, \<open>None\<close> when it
  cannot be opened.
\<close>

definition load_proxies ::
  "resolver \<Rightarrow> (string \<Rightarrow> string option) \<Rightarrow> string \<Rightarrow> proxy_type \<Rightarrow> state \<Rightarrow>
   (int \<times> state) option" where
  "load_proxies getaddrinfo fopen filename default_type s =
     (case fopen filename of
        None \<Rightarrow> Some (- 1, s)
      | Some fp \<Rightarrow>
          (case del_proxy_all s of
             None \<Rightarrow> None
           | Some s1 \<Rightarrow>
               (case load_loop getaddrinfo default_type fp 0 s1 of
                  None \<Rightarrow> None
                | Some (count, s2) \<Rightarrow>
                    let s3 = s2\<lparr>proxy_count := count\<rparr> in
                    if 0 < count
                    then Some (count, s3\<lparr>proxy_file := Some filename,
                                         proxy_default_type := default_type,
                                         current_proxy := None\<rparr>)
                    else Some (0, s3))))"

lemma dll_upd_other: "a \<notin> set as \<Longrightarrow> dll (h(a := x)) prev as = dll h prev as"
  by (induction as arbitrary: prev) (auto split: option.splits)

lemma del_proxy_loop_dll:
  "dll (heap s) prev as \<Longrightarrow> distinct as \<Longrightarrow>
   del_proxy_loop s (first_of as) =
     Some (s\<lparr>heap := (\<lambda>a. if a \<in> set as then None else heap s a)\<rparr>)"
proof (induction as arbitrary: s prev)
  case Nil
  then show ?case by (subst del_proxy_loop.simps) simp
next
  case (Cons a as)
  from Cons.prems obtain n where n: "heap s a = Some n" "next n = first_of as"
    and d: "dll (heap s) (Some a) as"
    by (auto split: option.splits)
  from Cons.prems have na: "a \<notin> set as" and di: "distinct as" by simp_all
  have "dll (heap (del_proxy a s)) (Some a) as"
    using d na by (simp add: del_proxy_def dll_upd_other)
  from Cons.IH [OF this di]
  have "del_proxy_loop (del_proxy a s) (first_of as) =
        Some (del_proxy a s\<lparr>heap := \<lambda>x. if x \<in> set as then None else heap (del_proxy a s) x\<rparr>)" .
  moreover have "(\<lambda>x. if x \<in> set as then None else heap (del_proxy a s) x) =
                 (\<lambda>x. if x \<in> set (a # as) then None else heap s x)"
    by (auto simp: del_proxy_def)
  ultimately show ?case
    using n by (subst del_proxy_loop.simps) (simp add: del_proxy_def)
qed


text \<open>The records that the lines of a file give, in order.\<close>

function valid_lines :: "resolver \<Rightarrow> proxy_type \<Rightarrow> string \<Rightarrow> proxy list" where
  "valid_lines getaddrinfo default_type fp =
     (case fgets MAX_PROXY_LINE fp of
        None \<Rightarrow> []
      | Some (line, fp') \<Rightarrow>
          (case parse_proxy_line getaddrinfo line default_type of
             None \<Rightarrow> valid_lines getaddrinfo default_type fp'
           | Some p \<Rightarrow> p # valid_lines getaddrinfo default_type fp'))"
  by pat_completeness auto
termination
  by (relation "measure (\<lambda>(g, d, fp). length fp)")
     (auto simp: fgets_def MAX_PROXY_LINE_def Let_def split: if_splits)

declare valid_lines.simps [simp del]

text \<open>The state after \<^verbatim>\<open>del_proxy_all\<close> on the pool \<open>as\<close>.\<close>

definition cleared :: "state \<Rightarrow> addr list \<Rightarrow> state" where
  "cleared s as =
     s\<lparr>heap := (\<lambda>a. if a \<in> set as then None else heap s a),
       proxy_list := None, proxy_tail := None, current_proxy := None, proxy_count := 0\<rparr>"

lemma del_proxy_all_wf:
  assumes "pool_wf s as"
  shows "del_proxy_all s = Some (cleared s as)"
proof -
  from assms have "dll (heap s) None as" "distinct as" "proxy_list s = first_of as"
    by (simp_all add: pool_wf_def pool_list_def)
  with del_proxy_loop_dll [of s None as] show ?thesis
    by (simp add: del_proxy_all_def cleared_def)
qed

lemma last_of_last: "as \<noteq> [] \<Longrightarrow> last_of as = Some (last as)"
  by (induction as rule: last_of.induct) simp_all

lemma last_of_snoc [simp]: "last_of (as @ [a]) = Some a"
  by (simp add: last_of_last)

lemma first_of_snoc: "first_of (as @ [a]) = (if as = [] then Some a else first_of as)"
  by (cases as) simp_all

lemma dll_last:
  "dll h prev as \<Longrightarrow> as \<noteq> [] \<Longrightarrow> \<exists>n. h (last as) = Some n \<and> next n = None"
  by (induction as arbitrary: prev) (auto split: option.splits)

lemma dll_snoc:
  "dll h prev as \<Longrightarrow> distinct as \<Longrightarrow> a \<notin> set as \<Longrightarrow> as \<noteq> [] \<Longrightarrow>
   h (last as) = Some tn \<Longrightarrow> next p = None \<Longrightarrow>
   dll (h(last as := Some (tn\<lparr>next := Some a\<rparr>), a := Some (p\<lparr>parent := Some (last as)\<rparr>)))
     prev (as @ [a])"
proof (induction as arbitrary: prev)
  case Nil
  then show ?case by simp
next
  case (Cons x xs)
  show ?case
  proof (cases "xs = []")
    case True
    with Cons.prems show ?thesis by (auto split: option.splits)
  next
    case False
    then have l: "last (x # xs) = last xs" by simp
    from Cons.prems obtain n where n: "h x = Some n" "parent n = prev" "next n = first_of xs"
      and d: "dll h (Some x) xs"
      by (auto split: option.splits)
    from Cons.prems False have xl: "x \<noteq> last xs" and xa: "x \<noteq> a"
      by auto
    let ?h' = "h(last xs := Some (tn\<lparr>next := Some a\<rparr>),
                 a := Some (p\<lparr>parent := Some (last xs)\<rparr>))"
    have ih: "dll ?h' (Some x) (xs @ [a])"
      using Cons.prems False d by (intro Cons.IH) (simp_all add: l)
    have fo: "first_of (xs @ [a]) = first_of xs"
      using False by (simp add: first_of_snoc)
    have hx: "?h' x = Some n" using n xl xa by simp
    have "dll ?h' prev (x # (xs @ [a]))"
      by (simp only: dll.simps hx option.case n(2,3) fo ih simp_thms)
    then show ?thesis by (simp only: l append_Cons)
  qed
qed

lemma link_tail_list:
  assumes "pool_list s as" and "next p = None" and "parent p = None"
  shows "\<exists>s'. link_tail p s = Some s' \<and> pool_list s' (as @ [brk s]) \<and> brk s' = Suc (brk s) \<and>
              current_proxy s' = current_proxy s \<and> proxy_count s' = proxy_count s \<and>
              proxy_file s' = proxy_file s \<and> proxy_default_type s' = proxy_default_type s \<and>
              proxy_loader_concurrency s' = proxy_loader_concurrency s \<and>
              (\<forall>a. a < brk s \<and> a \<notin> set as \<longrightarrow> heap s' a = heap s a)"
proof (cases "as = []")
  case True
  with assms show ?thesis
    by (simp add: link_tail_def pool_list_def Let_def)
next
  case ne: False
  from assms(1) have d: "dll (heap s) None as" and di: "distinct as"
    and lt: "list_all (\<lambda>a. a < brk s) as"
    and pl: "proxy_list s = first_of as" and pt: "proxy_tail s = Some (last as)"
    by (simp_all add: pool_list_def last_of_last ne)
  from pl ne obtain x where pl': "proxy_list s = Some x" by (cases as) simp_all
  from lt have fresh: "brk s \<notin> set as" by (auto simp: list_all_iff)
  from dll_last [OF d ne] obtain tn where tn: "heap s (last as) = Some tn" by blast
  have lb: "last as \<noteq> brk s" using fresh ne by (metis last_in_set)
  let ?h = "(heap s)(brk s := Some p)"
  let ?h' = "?h(last as := Some (tn\<lparr>next := Some (brk s)\<rparr>),
                brk s := Some (p\<lparr>parent := Some (last as)\<rparr>))"
  let ?s' = "s\<lparr>heap := ?h', brk := Suc (brk s), proxy_tail := Some (brk s)\<rparr>"
  have d1: "dll ?h None as" using d fresh by (simp add: dll_upd_other)
  have tn1: "?h (last as) = Some tn" using tn lb by simp
  have d2: "dll ?h' None (as @ [brk s])"
    using d1 di fresh ne tn1 assms(2) by (rule dll_snoc)
  have lt2: "list_all (\<lambda>a. a < Suc (brk s)) (as @ [brk s])"
    using lt by (auto simp: list_all_iff)
  have l: "link_tail p s = Some ?s'"
    using pl' pt tn1 by (simp add: link_tail_def Let_def)
  have w: "pool_list ?s' (as @ [brk s])"
    using d2 lt2 di fresh pl ne by (simp add: pool_list_def first_of_snoc)
  have frame: "\<forall>a. a < brk s \<and> a \<notin> set as \<longrightarrow> heap ?s' a = heap s a"
    using ne by auto
  show ?thesis
    by (intro exI [of _ ?s'] conjI l w frame) simp_all
qed


lemma resolve_proxy_links:
  "resolve_proxy getaddrinfo v6 p = Some p' \<Longrightarrow> next p' = next p \<and> parent p' = parent p"
  by (auto simp: resolve_proxy_def split: option.splits if_splits)

text \<open>A record fresh from the parser has no neighbours.\<close>

definition unlinked :: "proxy option \<Rightarrow> bool" where
  "unlinked r = (case r of None \<Rightarrow> True | Some p \<Rightarrow> next p = None \<and> parent p = None)"

lemma unlinked_None: "unlinked None"
  by (simp add: unlinked_def)

lemma unlinked_if: "unlinked a \<Longrightarrow> unlinked b \<Longrightarrow> unlinked (if c then a else b)"
  by simp

lemma unlinked_Let: "(\<And>x. unlinked (f x)) \<Longrightarrow> unlinked (Let e f)"
  by (simp add: Let_def)

lemma unlinked_option:
  "unlinked a \<Longrightarrow> (\<And>v. unlinked (g v)) \<Longrightarrow> unlinked (case_option a g x)"
  by (cases x) simp_all

lemma unlinked_prod: "(\<And>u v. unlinked (h u v)) \<Longrightarrow> unlinked (case_prod h y)"
  by (cases y) simp

lemmas unlinked_intros =
  unlinked_None unlinked_if unlinked_Let unlinked_option unlinked_prod

lemma unlinked_resolve:
  "next p = None \<Longrightarrow> parent p = None \<Longrightarrow> unlinked (resolve_proxy getaddrinfo v6 p)"
  by (auto simp: unlinked_def split: option.splits dest!: resolve_proxy_links)

lemma parse_proxy_line_unlinked:
  "unlinked (parse_proxy_line getaddrinfo line default_type)"
  unfolding parse_proxy_line_def
  by (intro unlinked_intros unlinked_resolve) (simp_all add: calloc_proxy_def)

lemma parse_proxy_line_links:
  "parse_proxy_line getaddrinfo line default_type = Some p \<Longrightarrow> next p = None \<and> parent p = None"
  using parse_proxy_line_unlinked [of getaddrinfo line default_type]
  by (simp add: unlinked_def)

text \<open>\<open>frame s as s'\<close>: what a step on the pool \<open>as\<close> of \<open>s\<close> leaves alone.\<close>

definition frame :: "state \<Rightarrow> addr list \<Rightarrow> state \<Rightarrow> bool" where
  "frame s as s' =
     (current_proxy s' = current_proxy s \<and> proxy_count s' = proxy_count s \<and>
      proxy_file s' = proxy_file s \<and> proxy_default_type s' = proxy_default_type s \<and>
      proxy_loader_concurrency s' = proxy_loader_concurrency s \<and>
      (\<forall>a. a < brk s \<and> a \<notin> set as \<longrightarrow> heap s' a = heap s a))"

lemma load_loop_list:
  "pool_list s as \<Longrightarrow>
   \<exists>s'. load_loop getaddrinfo default_type fp count s =
           Some (count + int (length (valid_lines getaddrinfo default_type fp)), s') \<and>
        pool_list s' (as @ [brk s ..< brk s + length (valid_lines getaddrinfo default_type fp)]) \<and>
        frame s as s'"
proof (induction getaddrinfo default_type fp count s arbitrary: as rule: load_loop.induct)
  case (1 getaddrinfo default_type fp count s)
  show ?case
  proof (cases "fgets MAX_PROXY_LINE fp")
    case None
    with "1.prems" show ?thesis
      by (subst load_loop.simps, subst (1 2) valid_lines.simps) (simp add: frame_def)
  next
    case (Some lf)
    obtain line fp' where lf: "lf = (line, fp')" by (cases lf)
    show ?thesis
    proof (cases "parse_proxy_line getaddrinfo line default_type")
      case None
      from "1.IH"(1) [OF Some lf [symmetric] None "1.prems"] Some lf None
      show ?thesis
        by (subst load_loop.simps, subst (1 2) valid_lines.simps) simp
    next
      case (Some p)
      note p = this
      from parse_proxy_line_links [OF p] have links: "next p = None" "parent p = None"
        by simp_all
      from link_tail_list [OF "1.prems" links] obtain s1 where
        l: "link_tail p s = Some s1" and w1: "pool_list s1 (as @ [brk s])"
        and b1: "brk s1 = Suc (brk s)" and f1: "frame s as s1"
        by (auto simp: frame_def)
      let ?k = "length (valid_lines getaddrinfo default_type fp')"
      from "1.IH"(2) [OF \<open>fgets MAX_PROXY_LINE fp = Some lf\<close> lf [symmetric] p l w1]
      obtain s' where
        r: "load_loop getaddrinfo default_type fp' (count + 1) s1 = Some (count + 1 + int ?k, s')"
        and w': "pool_list s' ((as @ [brk s]) @ [brk s1 ..< brk s1 + ?k])"
        and f': "frame s1 (as @ [brk s]) s'"
        by blast
      have vl: "valid_lines getaddrinfo default_type fp =
                p # valid_lines getaddrinfo default_type fp'"
        using \<open>fgets MAX_PROXY_LINE fp = Some lf\<close> lf p by (subst valid_lines.simps) simp
      have "[brk s ..< brk s + Suc ?k] = brk s # [Suc (brk s) ..< brk s + Suc ?k]"
        by (rule upt_conv_Cons) simp
      then have idx: "(as @ [brk s]) @ [brk s1 ..< brk s1 + ?k] =
                      as @ [brk s ..< brk s + length (valid_lines getaddrinfo default_type fp)]"
        unfolding vl by (simp add: b1 del: upt_Suc)
      have f: "frame s as s'"
        using f1 f' b1 by (auto simp: frame_def)
      have "load_loop getaddrinfo default_type fp count s =
            Some (count + int (length (valid_lines getaddrinfo default_type fp)), s')"
        using \<open>fgets MAX_PROXY_LINE fp = Some lf\<close> lf p l r unfolding vl
        by (subst load_loop.simps) simp
      with w' [unfolded idx] f show ?thesis by blast
    qed
  qed
qed

lemma load_loop_none:
  "valid_lines getaddrinfo default_type fp = [] \<Longrightarrow>
   load_loop getaddrinfo default_type fp count s = Some (count, s)"
proof (induction getaddrinfo default_type fp count s rule: load_loop.induct)
  case (1 getaddrinfo default_type fp count s)
  show ?case
  proof (cases "fgets MAX_PROXY_LINE fp")
    case None
    then show ?thesis by (subst load_loop.simps) simp
  next
    case (Some lf)
    obtain line fp' where lf: "lf = (line, fp')" by (cases lf)
    from "1.prems" Some lf
    have none: "parse_proxy_line getaddrinfo line default_type = None"
      and rest: "valid_lines getaddrinfo default_type fp' = []"
      by (subst (asm) valid_lines.simps, simp split: option.splits)+
    from "1.IH"(1) [OF Some lf [symmetric] none rest] Some lf none
    show ?thesis by (subst load_loop.simps) simp
  qed
qed

lemma pool_list_cleared: "pool_list (cleared s as) []"
  by (simp add: pool_list_def cleared_def)

text \<open>
  Claim C10. When the file cannot be opened \<^verbatim>\<open>load_proxies\<close> returns \<open>-1\<close> and leaves
  the state as it was. When it opens, the nodes of the old pool are freed and the
  pool holds exactly the records of the file, in new nodes; a file without a valid
  line leaves the pool empty and the function returns 0.
\<close>

theorem load_proxies_clears:
  "(fopen filename = None \<longrightarrow>
      load_proxies getaddrinfo fopen filename default_type s = Some (- 1, s)) \<and>
   (fopen filename = Some fp \<and> pool_wf s as \<longrightarrow>
      (\<exists>s'. load_proxies getaddrinfo fopen filename default_type s =
              Some (int (length (valid_lines getaddrinfo default_type fp)), s') \<and>
            pool_wf s' [brk s ..< brk s + length (valid_lines getaddrinfo default_type fp)] \<and>
            current_proxy s' = None \<and> list_all (\<lambda>a. heap s' a = None) as \<and>
            (valid_lines getaddrinfo default_type fp = [] \<longrightarrow> s' = cleared s as)))"
proof (intro conjI impI)
  assume "fopen filename = None"
  then show "load_proxies getaddrinfo fopen filename default_type s = Some (- 1, s)"
    by (simp add: load_proxies_def)
next
  assume a: "fopen filename = Some fp \<and> pool_wf s as"
  let ?vl = "valid_lines getaddrinfo default_type fp"
  let ?c = "cleared s as"
  from a have wf: "pool_wf s as" and fo: "fopen filename = Some fp" by simp_all
  have del: "del_proxy_all s = Some ?c" using wf by (rule del_proxy_all_wf)
  from load_loop_list [OF pool_list_cleared, where getaddrinfo = getaddrinfo and fp = fp
      and default_type = default_type and count = 0 and s1 = s and as1 = as]
  obtain s2 where
    ll: "load_loop getaddrinfo default_type fp 0 ?c = Some (int (length ?vl), s2)"
    and w2: "pool_list s2 [brk ?c ..< brk ?c + length ?vl]"
    and f2: "frame ?c [] s2"
    by auto
  have bc: "brk ?c = brk s" by (simp add: cleared_def)
  from wf have old: "list_all (\<lambda>a. a < brk s) as" by (simp add: pool_wf_def pool_list_def)
  have freed: "list_all (\<lambda>a. heap s2 a = None) as"
    using f2 old by (auto simp: frame_def list_all_iff cleared_def)
  have cur: "current_proxy s2 = None" using f2 by (simp add: frame_def cleared_def)
  let ?s3 = "s2\<lparr>proxy_count := int (length ?vl)\<rparr>"
  let ?s' = "if ?vl = [] then ?s3
             else ?s3\<lparr>proxy_file := Some filename, proxy_default_type := default_type,
                      current_proxy := None\<rparr>"
  have res: "load_proxies getaddrinfo fopen filename default_type s = Some (int (length ?vl), ?s')"
    using fo del ll by (simp add: load_proxies_def Let_def)
  have wf': "pool_wf ?s' [brk s ..< brk s + length ?vl]"
    using w2 cur by (simp add: pool_wf_def pool_list_def bc)
  have z: "?vl = [] \<longrightarrow> ?s' = ?c"
  proof
    assume e: "?vl = []"
    have "load_loop getaddrinfo default_type fp 0 ?c = Some (0, ?c)"
      using e by (rule load_loop_none)
    with ll e have "s2 = ?c" by simp
    then show "?s' = ?c" using e by (simp add: cleared_def)
  qed
  show "\<exists>s'. load_proxies getaddrinfo fopen filename default_type s =
              Some (int (length ?vl), s') \<and>
            pool_wf s' [brk s ..< brk s + length ?vl] \<and>
            current_proxy s' = None \<and> list_all (\<lambda>a. heap s' a = None) as \<and>
            (?vl = [] \<longrightarrow> s' = cleared s as)"
    using res wf' cur freed z by (intro exI [of _ ?s']) (auto simp: cleared_def list_all_iff)
qed


text \<open>Two files; every other name cannot be opened.\<close>

definition some_files :: "string \<Rightarrow> string option" where
  "some_files filename =
     (if filename = ''comments.txt'' then Some (''# no proxies here'' @ [CHR 0x0A] @ ''   '' @ [CHR 0x0A])
      else if filename = ''one.txt'' then Some (''# one'' @ [CHR 0x0A] @ ''192.0.2.9:3128'' @ [CHR 0x0A])
      else None)"

lemma two_proxies_brk: "brk two_proxies = 2"
  by (simp add: two_proxies_def)

lemma comments_no_lines:
  "valid_lines numeric_hosts PROXY_NONE
     (''# no proxies here'' @ [CHR 0x0A] @ ''   '' @ [CHR 0x0A]) = []"
  by (simp add: valid_lines.simps fgets_def MAX_PROXY_LINE_def parse_blank_or_comment
        blank_or_comment_def space_def isspace_def)

lemma one_line:
  "valid_lines numeric_hosts PROXY_NONE (''# one'' @ [CHR 0x0A] @ ''192.0.2.9:3128'' @ [CHR 0x0A]) =
     [calloc_proxy\<lparr>host := Some ''192.0.2.9'', port := 3128, is_ipv6 := 0,
                   addr := Some (Sockaddr_in ''192.0.2.9'')\<rparr>]"
  by (simp add: valid_lines.simps fgets_def parse_eval numeric_hosts_def calloc_proxy_def)

theorem load_proxies_clears_witness:
  "load_proxies numeric_hosts some_files ''missing.txt'' PROXY_NONE two_proxies =
     Some (- 1, two_proxies) \<and>
   load_proxies numeric_hosts some_files ''comments.txt'' PROXY_NONE two_proxies =
     Some (0, cleared two_proxies [0, 1]) \<and>
   (\<exists>s'. load_proxies numeric_hosts some_files ''one.txt'' PROXY_NONE two_proxies = Some (1, s') \<and>
         pool_wf s' [2] \<and> heap s' 0 = None \<and> heap s' 1 = None)"
proof (intro conjI)
  have "some_files ''missing.txt'' = None" by (simp add: some_files_def)
  with load_proxies_clears [of some_files "''missing.txt''" numeric_hosts PROXY_NONE two_proxies]
  show "load_proxies numeric_hosts some_files ''missing.txt'' PROXY_NONE two_proxies =
          Some (- 1, two_proxies)"
    by simp
next
  have "some_files ''comments.txt'' = Some (''# no proxies here'' @ [CHR 0x0A] @ ''   '' @ [CHR 0x0A])"
    by (simp add: some_files_def)
  with two_proxies_wf comments_no_lines
    load_proxies_clears [of some_files "''comments.txt''" numeric_hosts PROXY_NONE two_proxies
      "''# no proxies here'' @ [CHR 0x0A] @ ''   '' @ [CHR 0x0A]" "[0, 1]"]
  show "load_proxies numeric_hosts some_files ''comments.txt'' PROXY_NONE two_proxies =
          Some (0, cleared two_proxies [0, 1])"
    by auto
next
  have "some_files ''one.txt'' = Some (''# one'' @ [CHR 0x0A] @ ''192.0.2.9:3128'' @ [CHR 0x0A])"
    by (simp add: some_files_def)
  with two_proxies_wf one_line two_proxies_brk
    load_proxies_clears [of some_files "''one.txt''" numeric_hosts PROXY_NONE two_proxies
      "''# one'' @ [CHR 0x0A] @ ''192.0.2.9:3128'' @ [CHR 0x0A]" "[0, 1]"]
  show "\<exists>s'. load_proxies numeric_hosts some_files ''one.txt'' PROXY_NONE two_proxies = Some (1, s') \<and>
         pool_wf s' [2] \<and> heap s' 0 = None \<and> heap s' 1 = None"
    by auto
qed

section \<open>Saving the pool (proxy\_loader.c)\<close>

text \<open>
  \<^verbatim>\<open>save_validated_proxies\<close>: the scheme is chosen by \<^verbatim>\<open>switch (p->type)\<close>. \<open>fopen_w\<close>
  tells whether the file can be opened for writing; the result is the return value
  and the content written. \<open>fmt_s\<close> is what \<^verbatim>\<open>%s\<close> prints (glibc prints \<open>(null)\<close> for
  NULL).
\<close>

definition scheme_of :: "proxy_type \<Rightarrow> string" where
  "scheme_of t =
     (case t of
        PROXY_HTTP \<Rightarrow> ''http://''
      | PROXY_HTTPS \<Rightarrow> ''https://''
      | PROXY_SOCKS4 \<Rightarrow> ''socks4://''
      | PROXY_SOCKS5 \<Rightarrow> ''socks5://''
      | PROXY_NONE \<Rightarrow> '''')"

definition fmt_s :: "string option \<Rightarrow> string" where
  "fmt_s str = (case str of None \<Rightarrow> ''(null)'' | Some cs \<Rightarrow> cs)"

definition credentials :: "proxy \<Rightarrow> string" where
  "credentials p =
     (if nonempty (username p) \<and> nonempty (password p)
      then fmt_s (username p) @ '':'' @ fmt_s (password p) @ ''@'' else '''')"

definition proxy_line :: "proxy \<Rightarrow> string" where
  "proxy_line p =
     scheme_of (type p) @ credentials p @ fmt_s (host p) @ '':'' @ fmt_d (port p) @ [CHR 0x0A]"

partial_function (option) save_loop ::
  "(addr \<Rightarrow> proxy option) \<Rightarrow> addr option \<Rightarrow> string \<Rightarrow> int \<Rightarrow> (string \<times> int) option" where
  "save_loop h p out count =
     (case p of
        None \<Rightarrow> Some (out, count)
      | Some a \<Rightarrow>
          (case h a of
             None \<Rightarrow> None
           | Some n \<Rightarrow> save_loop h (next n) (out @ proxy_line n) (count + 1)))"

definition save_validated_proxies ::
  "(string \<Rightarrow> bool) \<Rightarrow> string \<Rightarrow> state \<Rightarrow> (int \<times> string option) option" where
  "save_validated_proxies fopen_w filename s =
     (if \<not> fopen_w filename then Some (- 1, None)
      else
        case save_loop (heap s) (proxy_list s) [] 0 of
          None \<Rightarrow> None
        | Some (out, count) \<Rightarrow> Some (count, Some out))"

text \<open>The line of a proxy in the words of the specification: the scheme of \<^verbatim>\<open>detected_type\<close>.\<close>

definition spec_line :: "proxy \<Rightarrow> string" where
  "spec_line p =
     scheme_of (detected_type p) @ credentials p @ fmt_s (host p) @ '':'' @ fmt_d (port p) @
     [CHR 0x0A]"

text \<open>The records at the addresses \<open>as\<close>.\<close>

definition nodes :: "state \<Rightarrow> addr list \<Rightarrow> proxy list" where
  "nodes s as = map (\<lambda>a. the (heap s a)) as"

text \<open>A pool of one proxy as \<^verbatim>\<open>load_proxies\<close> leaves it for the line \<open>socks5://192.0.2.5:1080\<close>.\<close>

definition loaded_socks5 :: state where
  "loaded_socks5 =
     \<lparr>heap = (\<lambda>a. None)
        (0 := Some (calloc_proxy\<lparr>host := Some ''192.0.2.5'', port := 1080, type := PROXY_SOCKS5,
                                 addr := Some (Sockaddr_in ''192.0.2.5'')\<rparr>)),
      brk = 1, proxy_list = Some 0, proxy_tail = Some 0, current_proxy = None,
      proxy_count = 1, proxy_default_type = PROXY_NONE, proxy_file = Some ''proxies.txt'',
      proxy_loader_concurrency = 0\<rparr>"

lemma save_loop_dll:
  "dll h prev as \<Longrightarrow>
   save_loop h (first_of as) out count =
     Some (out @ concat (map (\<lambda>a. proxy_line (the (h a))) as), count + int (length as))"
proof (induction as arbitrary: prev out count)
  case Nil
  then show ?case by (subst save_loop.simps) simp
next
  case (Cons a as)
  from Cons.prems obtain n where n: "h a = Some n" "next n = first_of as"
    and d: "dll h (Some a) as"
    by (auto split: option.splits)
  from Cons.IH [OF d, of "out @ proxy_line n" "count + 1"] n
  show ?case by (subst save_loop.simps) simp
qed

text \<open>
  Claim C8, as stated, fails: for a proxy loaded with the scheme \<open>socks5://\<close> and not
  validated, \<^verbatim>\<open>detected_type\<close> is NONE, but the line written carries the scheme.
\<close>

theorem save_scheme_counterexample:
  "save_validated_proxies (\<lambda>f. True) ''out.txt'' loaded_socks5 =
     Some (1, Some (''socks5://192.0.2.5:1080'' @ [CHR 0x0A])) \<and>
   concat (map spec_line (nodes loaded_socks5 [0])) = ''192.0.2.5:1080'' @ [CHR 0x0A] \<and>
   pool_wf loaded_socks5 [0]"
  by (simp add: save_validated_proxies_def save_loop.simps loaded_socks5_def calloc_proxy_def
        proxy_line_def spec_line_def nodes_def scheme_of_def credentials_def nonempty_def
        fmt_s_def fmt_d_def dec.simps pool_wf_def pool_list_def)

section \<open>The validator (proxy\_loader.c)\<close>

text \<open>
  A connection to a proxy, as the environment provides it: how \<^verbatim>\<open>socket\<close>, \<^verbatim>\<open>fcntl\<close>
  and \<^verbatim>\<open>connect\<close> answer (\<open>dial\<close>), what \<^verbatim>\<open>poll\<close> reports while the connection
  is in progress (\<open>cx\<close>, with delays in milliseconds as for a socket), and the
  socket once it is connected (\<open>io\<close>). \<open>Cintr\<close>: \<^verbatim>\<open>poll\<close> is interrupted;
  \<open>Cpoll_failed\<close>: it fails; \<open>Cspurious\<close>: it returns without one of the awaited
  events; \<open>Cso_error\<close>: \<^verbatim>\<open>SO_ERROR\<close> is set or cannot be read; \<open>Cestablished\<close>: the
  connection stands.
\<close>

datatype connecting = Socket_failed | Fcntl_failed | Connect_failed | Connect_now | Connect_in_progress

datatype cstep = Cintr | Cpoll_failed | Cspurious | Cso_error | Cestablished

record link =
  dial :: connecting
  cx :: "(nat \<times> cstep) list"
  io :: sock

text \<open>
  \<^verbatim>\<open>open_proxy_socket\<close>: the loop polls with what is left of \<^verbatim>\<open>timeout_ms\<close> since
  \<open>start\<close>. The result is the round trip time if the socket is connected, and the
  time at which the function returns.
\<close>

fun connect_loop :: "int \<Rightarrow> nat \<Rightarrow> nat \<Rightarrow> (nat \<times> cstep) list \<Rightarrow> int option \<times> nat" where
  "connect_loop timeout_ms start now [] =
     (let remaining = timeout_ms - (int now - int start) in
      if remaining \<le> 0 then (None, now) else (None, now + nat remaining))"
| "connect_loop timeout_ms start now ((d, st) # evs) =
     (let remaining = timeout_ms - (int now - int start) in
      if remaining \<le> 0 then (None, now)
      else if nat remaining < d then (None, now + nat remaining)
      else
        case st of
          Cintr \<Rightarrow> connect_loop timeout_ms start (now + d) evs
        | Cpoll_failed \<Rightarrow> (None, now + d)
        | Cspurious \<Rightarrow> connect_loop timeout_ms start (now + d) evs
        | Cso_error \<Rightarrow> (None, now + d)
        | Cestablished \<Rightarrow> (Some (int (now + d) - int start), now + d))"

definition open_proxy_socket :: "link \<Rightarrow> int \<Rightarrow> nat \<Rightarrow> int option \<times> nat" where
  "open_proxy_socket l timeout_ms now =
     (case dial l of
        Socket_failed \<Rightarrow> (None, now)
      | Fcntl_failed \<Rightarrow> (None, now)
      | Connect_failed \<Rightarrow> (None, now)
      | Connect_now \<Rightarrow> (Some 0, now)
      | Connect_in_progress \<Rightarrow> connect_loop timeout_ms now now (cx l))"

definition perform_proxy_handshake ::
  "resolve4 \<Rightarrow> sock \<Rightarrow> proxy \<Rightarrow> proxy_type \<Rightarrow> string \<Rightarrow> int \<Rightarrow> negotiation \<times> sock" where
  "perform_proxy_handshake resolve s p t test_host test_port =
     (case t of
        PROXY_SOCKS5 \<Rightarrow> socks5_connect s test_host test_port (username p) (password p)
      | PROXY_SOCKS4 \<Rightarrow> socks4_connect resolve s test_host test_port (username p)
      | PROXY_HTTP \<Rightarrow> http_connect s test_host test_port (username p) (password p)
      | PROXY_HTTPS \<Rightarrow> http_connect s test_host test_port (username p) (password p)
      | PROXY_NONE \<Rightarrow> (Silent, s))"

text \<open>
  The environment of a sweep: name resolution for SOCKS4, the connection that the
  proxy at an address offers to the \<open>i\<close>-th attempt, the test destination, whether
  \<^verbatim>\<open>calloc\<close> succeeds, and how many threads \<^verbatim>\<open>pthread_create\<close> is able to start.
\<close>

record probe =
  resolve4 :: resolve4
  net :: "addr \<Rightarrow> nat \<Rightarrow> link"
  test_host :: string
  test_port :: int
  calloc_ok :: bool
  threads :: nat

text \<open>
  The local variables of the worker for one proxy, with the time at which it is
  done with the proxy and the number of readiness polls its handshakes have made.
\<close>

record outcome =
  keep_proxy :: bool
  detected :: proxy_type
  connect_rtt_ms :: int
  finished :: nat
  handshake_polls :: nat

text \<open>
  The body of \<^verbatim>\<open>proxy_validator_worker\<close> for one proxy: the attempt order, the loop
  over the attempts, and the outcome written into the proxy.
\<close>

definition order_of :: "proxy \<Rightarrow> proxy_type list" where
  "order_of p =
     (if type p \<noteq> PROXY_NONE then [type p]
      else [PROXY_SOCKS5, PROXY_SOCKS4, PROXY_HTTP])"

fun attempts ::
  "probe \<Rightarrow> int \<Rightarrow> addr \<Rightarrow> proxy \<Rightarrow> proxy_type list \<Rightarrow> nat \<Rightarrow> outcome \<Rightarrow> outcome" where
  "attempts env timeout_ms a p [] i out = out"
| "attempts env timeout_ms a p (attempt_type # order) i out =
     (case open_proxy_socket (net env a i) timeout_ms (finished out) of
        (None, now) \<Rightarrow> out\<lparr>finished := now\<rparr>
      | (Some rtt, now) \<Rightarrow>
          (case perform_proxy_handshake (resolve4 env) (io (net env a i)\<lparr>clock := now\<rparr>) p
                  attempt_type (test_host env) (test_port env) of
             (r, s') \<Rightarrow>
               let out' = out\<lparr>connect_rtt_ms := rtt, finished := clock s',
                             handshake_polls := handshake_polls out +
                               (length (polls s') - length (polls (io (net env a i))))\<rparr>
               in if ret r = 0 then out'\<lparr>detected := attempt_type, keep_proxy := True\<rparr>
                  else attempts env timeout_ms a p order (Suc i) out'))"

definition has_credentials :: "proxy \<Rightarrow> bool" where
  "has_credentials p = (nonempty (username p) \<and> nonempty (password p))"

definition validate :: "probe \<Rightarrow> int \<Rightarrow> nat \<Rightarrow> addr \<Rightarrow> proxy \<Rightarrow> outcome" where
  "validate env timeout_ms start_ms a p =
     attempts env timeout_ms a p (order_of p) 0
       \<lparr>keep_proxy = False, detected = PROXY_NONE, connect_rtt_ms = 0, finished = start_ms,
        handshake_polls = 0\<rparr>"

definition record_outcome :: "outcome \<Rightarrow> proxy \<Rightarrow> proxy" where
  "record_outcome out p =
     (if keep_proxy out \<and> detected out \<noteq> PROXY_NONE
      then p\<lparr>validated := 1, is_active := 1, detected_type := detected out,
             type := detected out, last_rtt_ms := connect_rtt_ms out,
             has_auth := (if has_credentials p then 1 else 0)\<rparr>
      else p\<lparr>validated := 0, is_active := 0, detected_type := PROXY_NONE, last_rtt_ms := 0,
             has_auth := 0\<rparr>)"

text \<open>
  \<^verbatim>\<open>check_and_validate_proxies\<close>. The first loop fills the array \<^verbatim>\<open>items\<close> of
  \<open>ntotal\<close> entries and resets every proxy; writing behind the array is undefined.
  Each worker claims the next index under a lock and no two workers touch the
  same proxy, and the connection a proxy offers does not depend on the order of
  the workers: so the workers together are one pass over the array
  (\<open>run_workers\<close>), or nothing at all when no thread was started. The last loop
  removes what is not validated.
\<close>

partial_function (option) snapshot_loop ::
  "int \<Rightarrow> state \<Rightarrow> addr option \<Rightarrow> addr list \<Rightarrow> (addr list \<times> state) option" where
  "snapshot_loop ntotal s p items =
     (case p of
        None \<Rightarrow> Some (items, s)
      | Some a \<Rightarrow>
          (case heap s a of
             None \<Rightarrow> None
           | Some n \<Rightarrow>
               if ntotal \<le> int (length items) then None
               else snapshot_loop ntotal
                      (s\<lparr>heap := (heap s)
                           (a := Some (n\<lparr>validated := 0, is_active := 0,
                                         detected_type := PROXY_NONE, last_rtt_ms := 0,
                                         has_auth := 0\<rparr>))\<rparr>)
                      (next n) (items @ [a])))"

fun run_workers :: "probe \<Rightarrow> int \<Rightarrow> addr list \<Rightarrow> state \<Rightarrow> int \<Rightarrow> (int \<times> state) option" where
  "run_workers env timeout_ms [] s working = Some (working, s)"
| "run_workers env timeout_ms (a # items) s working =
     (case heap s a of
        None \<Rightarrow> None
      | Some p \<Rightarrow>
          let out = validate env timeout_ms 0 a p;
              p' = record_outcome out p
          in run_workers env timeout_ms items (s\<lparr>heap := (heap s)(a := Some p')\<rparr>)
               (if validated p' \<noteq> 0 then working + 1 else working))"

text \<open>\<^verbatim>\<open>remove_proxy_from_list\<close>, statement by statement.\<close>

definition set_next :: "addr \<Rightarrow> addr option \<Rightarrow> state \<Rightarrow> state option" where
  "set_next q v s =
     (case heap s q of
        None \<Rightarrow> None
      | Some n \<Rightarrow> Some (s\<lparr>heap := (heap s)(q := Some (n\<lparr>next := v\<rparr>))\<rparr>))"

definition set_parent :: "addr \<Rightarrow> addr option \<Rightarrow> state \<Rightarrow> state option" where
  "set_parent q v s =
     (case heap s q of
        None \<Rightarrow> None
      | Some n \<Rightarrow> Some (s\<lparr>heap := (heap s)(q := Some (n\<lparr>parent := v\<rparr>))\<rparr>))"

definition unlink_prev :: "addr \<Rightarrow> state \<Rightarrow> state option" where
  "unlink_prev p s =
     (case heap s p of
        None \<Rightarrow> None
      | Some n \<Rightarrow>
          (case parent n of
             Some q \<Rightarrow> set_next q (next n) s
           | None \<Rightarrow> Some (s\<lparr>proxy_list := next n\<rparr>)))"

definition unlink_next :: "addr \<Rightarrow> state \<Rightarrow> state option" where
  "unlink_next p s =
     (case heap s p of
        None \<Rightarrow> None
      | Some n \<Rightarrow>
          (case next n of
             Some r \<Rightarrow> set_parent r (parent n) s
           | None \<Rightarrow> Some (s\<lparr>proxy_tail := parent n\<rparr>)))"

definition move_cursor :: "addr \<Rightarrow> state \<Rightarrow> state option" where
  "move_cursor p s =
     (case heap s p of
        None \<Rightarrow> None
      | Some n \<Rightarrow>
          Some (if current_proxy s = Some p
                then s\<lparr>current_proxy := (if next n \<noteq> None then next n else proxy_list s)\<rparr>
                else s))"

definition remove_proxy_from_list :: "addr \<Rightarrow> state \<Rightarrow> state option" where
  "remove_proxy_from_list p s =
     (case unlink_prev p s of
        None \<Rightarrow> None
      | Some s1 \<Rightarrow>
          (case unlink_next p s1 of
             None \<Rightarrow> None
           | Some s2 \<Rightarrow>
               (case move_cursor p s2 of
                  None \<Rightarrow> None
                | Some s3 \<Rightarrow> Some (del_proxy p (s3\<lparr>proxy_count := proxy_count s3 - 1\<rparr>)))))"

partial_function (option) remove_loop :: "state \<Rightarrow> addr option \<Rightarrow> state option" where
  "remove_loop s p =
     (case p of
        None \<Rightarrow> Some s
      | Some a \<Rightarrow>
          (case heap s a of
             None \<Rightarrow> None
           | Some n \<Rightarrow>
               if validated n = 0
               then (case remove_proxy_from_list a s of
                       None \<Rightarrow> None
                     | Some s' \<Rightarrow> remove_loop s' (next n))
               else remove_loop s (next n)))"

definition PROXY_VALIDATOR_DEFAULT_TIMEOUT_MS :: int where
  "PROXY_VALIDATOR_DEFAULT_TIMEOUT_MS = 5000"

definition PROXY_VALIDATOR_DEFAULT_CONCURRENCY :: int where
  "PROXY_VALIDATOR_DEFAULT_CONCURRENCY = 10"

definition PROXY_VALIDATOR_MAX_CONCURRENCY :: int where
  "PROXY_VALIDATOR_MAX_CONCURRENCY = 128"

definition check_and_validate_proxies :: "probe \<Rightarrow> int \<Rightarrow> state \<Rightarrow> (int \<times> state) option" where
  "check_and_validate_proxies env timeout_ms s =
     (if proxy_list s = None then Some (- 1, s)
      else
        let timeout_ms = (if timeout_ms \<le> 0 then PROXY_VALIDATOR_DEFAULT_TIMEOUT_MS
                          else timeout_ms);
            concurrency = (if 0 < proxy_loader_concurrency s then proxy_loader_concurrency s
                           else PROXY_VALIDATOR_DEFAULT_CONCURRENCY);
            concurrency = (if concurrency < 1 then 1 else concurrency);
            concurrency = (if PROXY_VALIDATOR_MAX_CONCURRENCY < concurrency
                           then PROXY_VALIDATOR_MAX_CONCURRENCY else concurrency);
            ntotal = proxy_count s
        in if ntotal \<le> 0 then Some (- 1, s)
           else if \<not> calloc_ok env then Some (- 1, s)
           else
             case snapshot_loop ntotal s (proxy_list s) [] of
               None \<Rightarrow> None
             | Some (items, s1) \<Rightarrow>
                 let thread_count = (if ntotal < concurrency then ntotal else concurrency);
                     thread_count = min thread_count (int (threads env))
                 in case (if thread_count \<le> 0 then Some (0, s1)
                          else if int (length items) < ntotal then None
                          else run_workers env timeout_ms items s1 0) of
                      None \<Rightarrow> None
                    | Some (working, s2) \<Rightarrow>
                        (case remove_loop s2 (proxy_list s2) of
                           None \<Rightarrow> None
                         | Some s3 \<Rightarrow> Some (working, s3)))"


subsection \<open>Unlinking a node\<close>

text \<open>
  A segment of a doubly linked list: as \<open>dll\<close>, but the last node points to \<open>nxt\<close>.
\<close>

fun dlseg :: "(addr \<Rightarrow> proxy option) \<Rightarrow> addr option \<Rightarrow> addr list \<Rightarrow> addr option \<Rightarrow> bool" where
  "dlseg h prev [] nxt = True"
| "dlseg h prev (a # as) nxt =
     (case h a of
        None \<Rightarrow> False
      | Some n \<Rightarrow>
          parent n = prev \<and> next n = (if as = [] then nxt else first_of as) \<and>
          dlseg h (Some a) as nxt)"

definition last_or :: "addr option \<Rightarrow> addr list \<Rightarrow> addr option" where
  "last_or prev as = (if as = [] then prev else Some (last as))"

lemma dll_dlseg: "dll h prev as = dlseg h prev as None"
  by (induction as arbitrary: prev) (auto split: option.splits)

lemma dlseg_append:
  "dlseg h prev (xs @ ys) nxt =
   (dlseg h prev xs (if ys = [] then nxt else first_of ys) \<and> dlseg h (last_or prev xs) ys nxt)"
proof (induction xs arbitrary: prev)
  case Nil
  then show ?case by (simp add: last_or_def)
next
  case (Cons x xs)
  have l: "last_or prev (x # xs) = last_or (Some x) xs" by (simp add: last_or_def)
  have f: "(if xs @ ys = [] then nxt else first_of (xs @ ys)) =
           (if xs = [] then (if ys = [] then nxt else first_of ys) else first_of xs)"
    by (cases xs) simp_all
  show ?case
    unfolding l append_Cons dlseg.simps Cons.IH f
    by (auto split: option.splits)
qed

lemma dlseg_upd_other:
  "a \<notin> set as \<Longrightarrow> dlseg (h(a := v)) prev as nxt = dlseg h prev as nxt"
  by (induction as arbitrary: prev) (auto split: option.splits)

lemma dlseg_set_last_next:
  "dlseg h prev xs nxt \<Longrightarrow> distinct xs \<Longrightarrow> xs \<noteq> [] \<Longrightarrow> h (last xs) = Some n \<Longrightarrow>
   dlseg (h(last xs := Some (n\<lparr>next := nxt'\<rparr>))) prev xs nxt'"
proof (induction xs arbitrary: prev)
  case Nil
  then show ?case by simp
next
  case (Cons x xs)
  show ?case
  proof (cases "xs = []")
    case True
    with Cons.prems show ?thesis by (auto split: option.splits)
  next
    case False
    then have l: "last (x # xs) = last xs" by simp
    from Cons.prems False have xl: "x \<noteq> last xs" by auto
    from Cons.prems obtain m where m: "h x = Some m" "parent m = prev"
      "next m = first_of xs" and d: "dlseg h (Some x) xs nxt"
      using False by (auto split: option.splits)
    have ih: "dlseg (h(last xs := Some (n\<lparr>next := nxt'\<rparr>))) (Some x) xs nxt'"
      using Cons.prems False d by (intro Cons.IH) (simp_all add: l)
    have hx: "(h(last xs := Some (n\<lparr>next := nxt'\<rparr>))) x = Some m"
      using m xl by simp
    have "dlseg (h(last xs := Some (n\<lparr>next := nxt'\<rparr>))) prev (x # xs) nxt'"
      by (simp only: dlseg.simps hx option.case m(2,3) ih False if_False simp_thms)
    then show ?thesis by (simp only: l)
  qed
qed

lemma dlseg_set_first_parent:
  "dlseg h prev (y # zs) nxt \<Longrightarrow> y \<notin> set zs \<Longrightarrow> h y = Some m \<Longrightarrow>
   dlseg (h(y := Some (m\<lparr>parent := prev'\<rparr>))) prev' (y # zs) nxt"
  by (auto simp: dlseg_upd_other split: option.splits)

lemma dlseg_node:
  "dlseg h prev as nxt \<Longrightarrow> a \<in> set as \<Longrightarrow> \<exists>n. h a = Some n"
  by (induction as arbitrary: prev) (auto split: option.splits)


text \<open>The validation state of a node, and of the node at an address.\<close>

definition marks :: "proxy \<Rightarrow> int \<times> int \<times> proxy_type \<times> proxy_type" where
  "marks n = (validated n, is_active n, detected_type n, type n)"

definition mark_at ::
  "(addr \<Rightarrow> proxy option) \<Rightarrow> addr \<Rightarrow> (int \<times> int \<times> proxy_type \<times> proxy_type) option" where
  "mark_at h b = map_option marks (h b)"

lemma last_or_None: "last_or None xs = last_of xs"
  by (cases "xs = []") (simp_all add: last_or_def last_of_last)

lemma first_of_append: "first_of (xs @ ys) = (if xs = [] then first_of ys else first_of xs)"
  by (cases xs) simp_all

lemma last_of_append: "last_of (xs @ ys) = (if ys = [] then last_of xs else last_of ys)"
  by (cases "ys = []") (simp_all add: last_of_last)

lemma first_of_mem: "first_of ys = Some y \<Longrightarrow> y \<in> set ys"
  by (cases ys) auto

lemma remove_proxy_from_list_wf:
  assumes wf: "pool_wf s (xs @ a # ys)"
  shows "\<exists>s'. remove_proxy_from_list a s = Some s' \<and> pool_wf s' (xs @ ys) \<and>
              (\<forall>b. b \<noteq> a \<longrightarrow> mark_at (heap s') b = mark_at (heap s) b)"
proof -
  let ?h = "heap s"
  from wf have di: "distinct (xs @ a # ys)" and D: "dlseg ?h None (xs @ a # ys) None"
    and pl: "proxy_list s = first_of (xs @ a # ys)"
    and pt: "proxy_tail s = last_of (xs @ a # ys)"
    and cnt: "proxy_count s = int (length (xs @ a # ys))"
    and cur: "cursor_ok (current_proxy s) (xs @ a # ys)"
    and bk: "list_all (\<lambda>b. b < brk s) (xs @ a # ys)"
    by (simp_all add: pool_wf_def pool_list_def dll_dlseg)
  from di have axs: "a \<notin> set xs" and ays: "a \<notin> set ys" and dxs: "distinct xs"
    and dys: "distinct ys" and disj: "set xs \<inter> set ys = {}"
    by auto
  from D have A: "dlseg ?h None xs (Some a)" and B: "dlseg ?h (last_or None xs) (a # ys) None"
    by (simp_all add: dlseg_append)
  from B obtain n where n: "?h a = Some n" "parent n = last_of xs" "next n = first_of ys"
    and C: "dlseg ?h (Some a) ys None"
    by (cases ys) (auto simp: last_or_None split: option.splits)
  \<comment> \<open>\<^verbatim>\<open>p->parent->next = p->next\<close>, or the head moves\<close>
  obtain s1 where u1: "unlink_prev a s = Some s1" and h1a: "heap s1 a = Some n"
    and A1: "dlseg (heap s1) None xs (first_of ys)" and C1: "dlseg (heap s1) (Some a) ys None"
    and pl1: "proxy_list s1 = first_of (xs @ ys)"
    and g1: "proxy_tail s1 = proxy_tail s" "current_proxy s1 = current_proxy s"
      "proxy_count s1 = proxy_count s" "brk s1 = brk s"
    and m1: "\<forall>b. mark_at (heap s1) b = mark_at ?h b"
  proof (cases "xs = []")
    case True
    show ?thesis
      by (rule that [of "s\<lparr>proxy_list := first_of ys\<rparr>"])
         (use True n C pl in \<open>simp_all add: unlink_prev_def\<close>)
  next
    case False
    then have lx: "last xs \<in> set xs" by simp
    with dlseg_node [OF A] obtain nl where nl: "?h (last xs) = Some nl" by blast
    from lx axs disj have la: "last xs \<noteq> a" and ly: "last xs \<notin> set ys" by auto
    let ?s1 = "s\<lparr>heap := ?h(last xs := Some (nl\<lparr>next := first_of ys\<rparr>))\<rparr>"
    have "dlseg (heap ?s1) None xs (first_of ys)"
      using dlseg_set_last_next [OF A dxs False nl] by simp
    moreover have "dlseg (heap ?s1) (Some a) ys None"
      using C ly by (simp add: dlseg_upd_other)
    moreover have "unlink_prev a s = Some ?s1"
      using n nl False by (simp add: unlink_prev_def set_next_def last_of_last)
    moreover have "\<forall>b. mark_at (heap ?s1) b = mark_at ?h b"
      using nl by (simp add: mark_at_def marks_def)
    ultimately show ?thesis
      using False n la pl by (intro that [of ?s1]) (simp_all add: first_of_append)
  qed
  \<comment> \<open>\<^verbatim>\<open>p->next->parent = p->parent\<close>, or the tail moves\<close>
  obtain s2 where u2: "unlink_next a s1 = Some s2" and h2a: "heap s2 a = Some n"
    and A2: "dlseg (heap s2) None xs (first_of ys)"
    and C2: "dlseg (heap s2) (last_of xs) ys None"
    and pl2: "proxy_list s2 = first_of (xs @ ys)" and pt2: "proxy_tail s2 = last_of (xs @ ys)"
    and g2: "current_proxy s2 = current_proxy s" "proxy_count s2 = proxy_count s"
      "brk s2 = brk s"
    and m2: "\<forall>b. mark_at (heap s2) b = mark_at ?h b"
  proof (cases ys)
    case Nil
    show ?thesis
      by (rule that [of "s1\<lparr>proxy_tail := last_of xs\<rparr>"])
         (use Nil n h1a A1 pl1 g1 m1 in \<open>simp_all add: unlink_next_def\<close>)
  next
    case (Cons y zs)
    from C1 Cons obtain m where m: "heap s1 y = Some m" by (auto split: option.splits)
    from Cons dys ays disj have yz: "y \<notin> set zs" and ya: "y \<noteq> a" and yx: "y \<notin> set xs"
      by auto
    let ?s2 = "s1\<lparr>heap := (heap s1)(y := Some (m\<lparr>parent := last_of xs\<rparr>))\<rparr>"
    have "dlseg (heap ?s2) (last_of xs) ys None"
      using dlseg_set_first_parent [OF C1 [unfolded Cons] yz m] Cons by simp
    moreover have "dlseg (heap ?s2) None xs (first_of ys)"
      using A1 yx by (simp add: dlseg_upd_other)
    moreover have "unlink_next a s1 = Some ?s2"
      using h1a n m Cons by (simp add: unlink_next_def set_parent_def)
    moreover have "\<forall>b. mark_at (heap ?s2) b = mark_at ?h b"
    proof
      fix b
      have "mark_at (heap ?s2) y = mark_at (heap s1) y"
        using m by (simp add: mark_at_def marks_def)
      then show "mark_at (heap ?s2) b = mark_at ?h b"
        using m1 [rule_format, of b] by (cases "b = y") (simp_all add: mark_at_def)
    qed
    moreover have "proxy_tail s1 = last_of (xs @ ys)"
      using g1 pt Cons by (simp add: last_of_append)
    ultimately show ?thesis
      using h1a ya pl1 g1 by (intro that [of ?s2]) simp_all
  qed
  \<comment> \<open>the cursor, the count, and the node itself\<close>
  let ?c = "if current_proxy s2 = Some a
            then (if next n \<noteq> None then next n else proxy_list s2)
            else current_proxy s2"
  let ?s' = "del_proxy a (s2\<lparr>current_proxy := ?c, proxy_count := proxy_count s2 - 1\<rparr>)"
  have r: "remove_proxy_from_list a s = Some ?s'"
    using u1 u2 h2a by (simp add: remove_proxy_from_list_def move_cursor_def)
  have c_ok: "cursor_ok ?c (xs @ ys)"
  proof (cases "current_proxy s2 = Some a")
    case True
    show ?thesis
    proof (cases ys)
      case Nil
      with True n pl2 show ?thesis
        by (cases xs) simp_all
    next
      case (Cons y zs)
      with True n show ?thesis by simp
    qed
  next
    case False
    with cur g2 show ?thesis
      by (cases "current_proxy s") auto
  qed
  have "dlseg (heap s2) None (xs @ ys) None"
    using A2 C2 by (cases "ys = []") (simp_all add: dlseg_append last_or_None)
  then have d': "dll (heap ?s') None (xs @ ys)"
    using axs ays by (simp add: del_proxy_def dll_dlseg dlseg_upd_other)
  have w: "pool_wf ?s' (xs @ ys)"
    using d' di pl2 pt2 g2 cnt bk c_ok
    by (simp add: pool_wf_def pool_list_def del_proxy_def)
  have mk: "\<forall>b. b \<noteq> a \<longrightarrow> mark_at (heap ?s') b = mark_at ?h b"
    using m2 by (simp add: del_proxy_def mark_at_def)
  from r w mk show ?thesis by blast
qed


subsection \<open>The three phases of the sweep\<close>

definition valid_at :: "(addr \<Rightarrow> proxy option) \<Rightarrow> addr \<Rightarrow> bool" where
  "valid_at h b = (case mark_at h b of None \<Rightarrow> False | Some (v, act, t) \<Rightarrow> v \<noteq> 0)"

definition working_at :: "(addr \<Rightarrow> proxy option) \<Rightarrow> addr \<Rightarrow> bool" where
  "working_at h b =
     (case mark_at h b of
        None \<Rightarrow> False
      | Some (v, act, t, ty) \<Rightarrow> v \<noteq> 0 \<and> act \<noteq> 0 \<and> t \<noteq> PROXY_NONE)"

definition typed_at :: "(addr \<Rightarrow> proxy option) \<Rightarrow> addr \<Rightarrow> bool" where
  "typed_at h b = (case mark_at h b of None \<Rightarrow> False | Some (v, act, t, ty) \<Rightarrow> ty = t)"

definition settled_at :: "(addr \<Rightarrow> proxy option) \<Rightarrow> addr \<Rightarrow> bool" where
  "settled_at h b = (working_at h b \<and> typed_at h b \<or> \<not> valid_at h b)"

lemma dll_mid:
  "dll h prev (xs @ a # ys) \<Longrightarrow> \<exists>n. h a = Some n \<and> next n = first_of ys"
  by (cases ys) (auto simp: dll_dlseg dlseg_append split: option.splits)

lemma remove_loop_wf:
  "pool_wf s (xs @ ys) \<Longrightarrow>
   \<exists>s'. remove_loop s (first_of ys) = Some s' \<and>
        pool_wf s' (xs @ filter (valid_at (heap s)) ys) \<and>
        (\<forall>b \<in> set (xs @ filter (valid_at (heap s)) ys). mark_at (heap s') b = mark_at (heap s) b)"
proof (induction ys arbitrary: s xs)
  case Nil
  then show ?case by (subst remove_loop.simps) simp
next
  case (Cons a ys)
  from Cons.prems have "dll (heap s) None (xs @ a # ys)" and di: "distinct (xs @ a # ys)"
    by (simp_all add: pool_wf_def pool_list_def)
  from dll_mid [OF this(1)] obtain n where n: "heap s a = Some n" "next n = first_of ys"
    by blast
  show ?case
  proof (cases "validated n = 0")
    case True
    from remove_proxy_from_list_wf [OF Cons.prems] obtain s1 where
      r: "remove_proxy_from_list a s = Some s1" and w1: "pool_wf s1 (xs @ ys)"
      and m1: "\<forall>b. b \<noteq> a \<longrightarrow> mark_at (heap s1) b = mark_at (heap s) b"
      by blast
    from Cons.IH [OF w1] obtain s' where
      l: "remove_loop s1 (first_of ys) = Some s'"
      and w': "pool_wf s' (xs @ filter (valid_at (heap s1)) ys)"
      and m': "\<forall>b \<in> set (xs @ filter (valid_at (heap s1)) ys).
                 mark_at (heap s') b = mark_at (heap s1) b"
      by blast
    from di m1 have same: "filter (valid_at (heap s1)) ys = filter (valid_at (heap s)) ys"
      by (intro filter_cong refl) (auto simp: valid_at_def)
    from True n have na: "\<not> valid_at (heap s) a"
      by (simp add: valid_at_def mark_at_def marks_def)
    have "remove_loop s (Some a) = Some s'"
      using n True r l by (subst remove_loop.simps) simp
    moreover have "\<forall>b \<in> set (xs @ filter (valid_at (heap s)) ys).
                     mark_at (heap s') b = mark_at (heap s) b"
      using m' m1 di unfolding same by auto
    ultimately show ?thesis
      using w' na unfolding same by simp
  next
    case False
    from Cons.prems have "pool_wf s ((xs @ [a]) @ ys)" by simp
    from Cons.IH [OF this] obtain s' where
      l: "remove_loop s (first_of ys) = Some s'"
      and w': "pool_wf s' ((xs @ [a]) @ filter (valid_at (heap s)) ys)"
      and m': "\<forall>b \<in> set ((xs @ [a]) @ filter (valid_at (heap s)) ys).
                 mark_at (heap s') b = mark_at (heap s) b"
      by blast
    from False n have va: "valid_at (heap s) a"
      by (simp add: valid_at_def mark_at_def marks_def)
    have "remove_loop s (Some a) = Some s'"
      using n False l by (subst remove_loop.simps) simp
    with w' m' va show ?thesis by simp
  qed
qed

text \<open>
  The fields as the first loop leaves them; \<open>on_nodes f as h\<close> is the memory \<open>h\<close>
  with \<open>f\<close> applied to the nodes at \<open>as\<close>; \<open>verdict\<close> is what a worker makes of a proxy.
\<close>

definition reset :: "proxy \<Rightarrow> proxy" where
  "reset n = n\<lparr>validated := 0, is_active := 0, detected_type := PROXY_NONE, last_rtt_ms := 0,
               has_auth := 0\<rparr>"

definition on_nodes ::
  "(addr \<Rightarrow> proxy \<Rightarrow> proxy) \<Rightarrow> addr list \<Rightarrow> (addr \<Rightarrow> proxy option) \<Rightarrow> addr \<Rightarrow> proxy option" where
  "on_nodes f as h = (\<lambda>b. if b \<in> set as then map_option (f b) (h b) else h b)"

lemma dll_on_nodes:
  assumes "\<And>b n. next (f b n) = next n \<and> parent (f b n) = parent n"
  shows "dll (on_nodes f bs h) prev as = dll h prev as"
  by (induction as arbitrary: prev) (auto simp: on_nodes_def assms split: option.splits)

lemma on_nodes_Cons:
  "a \<notin> set as \<Longrightarrow> h a = Some n \<Longrightarrow>
   on_nodes f as (h(a := Some (f a n))) = on_nodes f (a # as) h"
  by (auto simp: on_nodes_def)

lemma snapshot_loop_dll:
  "dll (heap s) prev ys \<Longrightarrow> distinct ys \<Longrightarrow> int (length items + length ys) \<le> ntotal \<Longrightarrow>
   snapshot_loop ntotal s (first_of ys) items =
     Some (items @ ys, s\<lparr>heap := on_nodes (\<lambda>b. reset) ys (heap s)\<rparr>)"
proof (induction ys arbitrary: s prev items)
  case Nil
  then show ?case by (subst snapshot_loop.simps) (simp add: on_nodes_def)
next
  case (Cons a ys)
  from Cons.prems obtain n where n: "heap s a = Some n" "next n = first_of ys"
    and d: "dll (heap s) (Some a) ys"
    by (auto split: option.splits)
  from Cons.prems have na: "a \<notin> set ys" and di: "distinct ys"
    and len: "\<not> ntotal \<le> int (length items)"
    and len': "int (length (items @ [a]) + length ys) \<le> ntotal"
    by simp_all
  let ?s1 = "s\<lparr>heap := (heap s)(a := Some (reset n))\<rparr>"
  have "dll (heap ?s1) (Some a) ys" using d na by (simp add: dll_upd_other)
  from Cons.IH [OF this di len']
  have "snapshot_loop ntotal ?s1 (first_of ys) (items @ [a]) =
        Some ((items @ [a]) @ ys, ?s1\<lparr>heap := on_nodes (\<lambda>b. reset) ys (heap ?s1)\<rparr>)" .
  moreover have "on_nodes (\<lambda>b. reset) ys (heap ?s1) = on_nodes (\<lambda>b. reset) (a # ys) (heap s)"
    using on_nodes_Cons [where f = "\<lambda>b. reset" and h = "heap s" and a = a and as = ys
        and n = n] na n(1)
    by simp
  ultimately show ?case
    using n len by (subst snapshot_loop.simps) (simp add: reset_def)
qed

definition verdict :: "probe \<Rightarrow> int \<Rightarrow> addr \<Rightarrow> proxy \<Rightarrow> proxy" where
  "verdict env timeout_ms a p = record_outcome (validate env timeout_ms 0 a p) p"

lemma run_workers_heap:
  "distinct items \<Longrightarrow> list_all (\<lambda>b. heap s b \<noteq> None) items \<Longrightarrow>
   run_workers env timeout_ms items s working =
     Some (working + int (length (filter (valid_at (on_nodes (verdict env timeout_ms) items (heap s))) items)),
           s\<lparr>heap := on_nodes (verdict env timeout_ms) items (heap s)\<rparr>)"
proof (induction items arbitrary: s working)
  case Nil
  then show ?case by (simp add: on_nodes_def)
next
  case (Cons a items)
  from Cons.prems obtain p where p: "heap s a = Some p" by auto
  let ?p' = "verdict env timeout_ms a p"
  let ?s1 = "s\<lparr>heap := (heap s)(a := Some ?p')\<rparr>"
  let ?H = "on_nodes (verdict env timeout_ms) (a # items) (heap s)"
  from Cons.prems have na: "a \<notin> set items" and di: "distinct items"
    and al: "list_all (\<lambda>b. heap ?s1 b \<noteq> None) items"
    by (auto simp: list_all_iff)
  have H: "on_nodes (verdict env timeout_ms) items (heap ?s1) = ?H"
    using na p by (simp add: on_nodes_Cons)
  have va: "valid_at ?H a = (validated ?p' \<noteq> 0)"
    using p by (simp add: valid_at_def mark_at_def marks_def on_nodes_def)
  from Cons.IH [OF di al, of "if validated ?p' \<noteq> 0 then working + 1 else working"]
  show ?case
    using p unfolding H by (simp add: Let_def verdict_def [symmetric] va)
qed


lemma working_at_iff:
  "working_at h b =
   (case h b of
      None \<Rightarrow> False
    | Some n \<Rightarrow> validated n \<noteq> 0 \<and> is_active n \<noteq> 0 \<and> detected_type n \<noteq> PROXY_NONE)"
  by (simp add: working_at_def mark_at_def marks_def split: option.splits)

lemma not_valid_reset: "b \<in> set as \<Longrightarrow> \<not> valid_at (on_nodes (\<lambda>b. reset) as h) b"
  by (simp add: valid_at_def mark_at_def marks_def on_nodes_def reset_def split: option.splits)

lemma settled_reset: "b \<in> set as \<Longrightarrow> settled_at (on_nodes (\<lambda>b. reset) as h) b"
  by (simp add: settled_at_def not_valid_reset)

lemma settled_verdict:
  "b \<in> set as \<Longrightarrow> settled_at (on_nodes (verdict env timeout_ms) as h) b"
  by (auto simp: settled_at_def valid_at_def working_at_def typed_at_def mark_at_def marks_def
        on_nodes_def verdict_def record_outcome_def split: option.splits)

lemma pool_wf_on_nodes:
  assumes "pool_wf s as" and "\<And>b n. next (f b n) = next n \<and> parent (f b n) = parent n"
  shows "pool_wf (s\<lparr>heap := on_nodes f bs (heap s)\<rparr>) as"
  using assms(1) by (simp add: pool_wf_def pool_list_def dll_on_nodes [of f, OF assms(2)])

lemma pool_nodes: "pool_wf s as \<Longrightarrow> b \<in> set as \<Longrightarrow> \<exists>n. heap s b = Some n"
  using dlseg_node [of "heap s" None as None b]
  by (simp add: pool_wf_def pool_list_def dll_dlseg)

text \<open>
  What a sweep leaves: the entries that the workers have marked, still a
  well-formed pool, and the number of them as the result.
\<close>

lemma check_and_validate_proxies_working:
  assumes "pool_wf s as" and "calloc_ok env"
  shows "\<exists>r s' as'. check_and_validate_proxies env timeout_ms s = Some (r, s') \<and>
           pool_wf s' as' \<and> list_all (working_at (heap s')) as' \<and>
           list_all (typed_at (heap s')) as' \<and>
           r = (if as = [] then - 1 else int (length as'))"
proof (cases "as = []")
  case True
  with assms(1) have "proxy_list s = None" by (simp add: pool_wf_def pool_list_def)
  then have "check_and_validate_proxies env timeout_ms s = Some (- 1, s)"
    by (simp add: check_and_validate_proxies_def)
  with assms(1) True show ?thesis by auto
next
  case ne: False
  let ?t = "if timeout_ms \<le> 0 then PROXY_VALIDATOR_DEFAULT_TIMEOUT_MS else timeout_ms"
  let ?c0 = "if 0 < proxy_loader_concurrency s then proxy_loader_concurrency s
             else PROXY_VALIDATOR_DEFAULT_CONCURRENCY"
  let ?c1 = "if ?c0 < 1 then 1 else ?c0"
  let ?c2 = "if PROXY_VALIDATOR_MAX_CONCURRENCY < ?c1 then PROXY_VALIDATOR_MAX_CONCURRENCY
             else ?c1"
  let ?tc = "min (if proxy_count s < ?c2 then proxy_count s else ?c2) (int (threads env))"
  from assms(1) have d: "dll (heap s) None as" and di: "distinct as"
    and pl: "proxy_list s = first_of as" and cnt: "proxy_count s = int (length as)"
    by (simp_all add: pool_wf_def pool_list_def)
  from pl ne obtain x where plx: "proxy_list s = Some x" by (cases as) simp_all
  from cnt ne have pos: "\<not> proxy_count s \<le> 0" by simp
  let ?s1 = "s\<lparr>heap := on_nodes (\<lambda>b. reset) as (heap s)\<rparr>"
  have snap: "snapshot_loop (proxy_count s) s (proxy_list s) [] = Some (as, ?s1)"
    using snapshot_loop_dll [OF d di, of "[]" "proxy_count s"] pl cnt by simp
  have wf1: "pool_wf ?s1 as"
    using assms(1) by (rule pool_wf_on_nodes) (simp add: reset_def)
  \<comment> \<open>the workers\<close>
  obtain w s2 where
    run: "(if ?tc \<le> 0 then Some (0, ?s1)
           else if int (length as) < proxy_count s then None
           else run_workers env ?t as ?s1 0) = Some (w, s2)"
    and wf2: "pool_wf s2 as"
    and w: "w = int (length (filter (valid_at (heap s2)) as))"
    and se: "\<forall>b \<in> set as. settled_at (heap s2) b"
  proof (cases "?tc \<le> 0")
    case True
    have "filter (valid_at (heap ?s1)) as = []"
      by (simp add: filter_empty_conv not_valid_reset)
    moreover have "\<forall>b \<in> set as. settled_at (heap ?s1) b"
      by (simp add: settled_reset)
    ultimately show ?thesis
      using True wf1 by (intro that [of 0 ?s1]) simp_all
  next
    case False
    let ?s2 = "?s1\<lparr>heap := on_nodes (verdict env ?t) as (heap ?s1)\<rparr>"
    have al: "list_all (\<lambda>b. heap ?s1 b \<noteq> None) as"
      using pool_nodes [OF wf1] by (auto simp: list_all_iff)
    have "run_workers env ?t as ?s1 0 =
          Some (0 + int (length (filter (valid_at (heap ?s2)) as)), ?s2)"
      using run_workers_heap [OF di al, of env ?t 0] by simp
    moreover have "pool_wf ?s2 as"
      using wf1 by (rule pool_wf_on_nodes) (simp add: verdict_def record_outcome_def)
    moreover have "\<forall>b \<in> set as. settled_at (heap ?s2) b"
      by (simp add: settled_verdict)
    ultimately show ?thesis
      using False cnt by (intro that [of "int (length (filter (valid_at (heap ?s2)) as))" ?s2])
        simp_all
  qed
  \<comment> \<open>the removal of what is not validated\<close>
  from wf2 have "pool_wf s2 ([] @ as)" and pl2: "proxy_list s2 = first_of as"
    by (simp_all add: pool_wf_def pool_list_def)
  from remove_loop_wf [OF this(1)] obtain s3 where
    rem: "remove_loop s2 (first_of as) = Some s3"
    and wf3: "pool_wf s3 (filter (valid_at (heap s2)) as)"
    and m3: "\<forall>b \<in> set (filter (valid_at (heap s2)) as). mark_at (heap s3) b = mark_at (heap s2) b"
    by auto
  have res: "check_and_validate_proxies env timeout_ms s = Some (w, s3)"
    using plx pos assms(2) snap run rem pl2
    unfolding check_and_validate_proxies_def Let_def by simp
  have ok: "list_all (working_at (heap s3)) (filter (valid_at (heap s2)) as)"
    unfolding list_all_iff
  proof
    fix b assume b: "b \<in> set (filter (valid_at (heap s2)) as)"
    with se have "working_at (heap s2) b" by (auto simp: settled_at_def)
    with m3 b show "working_at (heap s3) b" by (simp add: working_at_def)
  qed
  have ty: "list_all (typed_at (heap s3)) (filter (valid_at (heap s2)) as)"
    unfolding list_all_iff
  proof
    fix b assume b: "b \<in> set (filter (valid_at (heap s2)) as)"
    with se have "typed_at (heap s2) b" by (auto simp: settled_at_def)
    with m3 b show "typed_at (heap s3) b" by (simp add: typed_at_def)
  qed
  show ?thesis
    using res wf3 ok ty w ne
    by (intro exI [of _ w] exI [of _ s3] exI [of _ "filter (valid_at (heap s2)) as"]) simp
qed

text \<open>
  Claim C3. For a well-formed pool, when the array of the snapshot can be
  allocated, \<^verbatim>\<open>check_and_validate_proxies\<close> returns; every proxy that remains is
  validated and active with a detected type; the value returned is the number of
  the remaining proxies, or \<open>-1\<close> if the pool was empty.
\<close>

theorem check_and_validate_proxies_sweep:
  assumes "pool_wf s as" and "calloc_ok env"
  shows "\<exists>r s' as'. check_and_validate_proxies env timeout_ms s = Some (r, s') \<and>
           pool_wf s' as' \<and>
           list_all (\<lambda>a. case heap s' a of
                            None \<Rightarrow> False
                          | Some n \<Rightarrow> validated n \<noteq> 0 \<and> is_active n \<noteq> 0 \<and>
                                     detected_type n \<noteq> PROXY_NONE) as' \<and>
           r = (if as = [] then - 1 else int (length as'))"
  using check_and_validate_proxies_working [OF assms, of timeout_ms]
  unfolding working_at_iff [abs_def] by blast


text \<open>
  A test bench: the proxy at address 0 accepts the connection at once and speaks
  SOCKS5 as \<open>mock_socks5\<close> does; every other connection fails.
\<close>

definition bench :: probe where
  "bench =
     \<lparr>resolve4 = (\<lambda>h. (None, 0)),
      net = (\<lambda>a i. if a = 0 then \<lparr>dial = Connect_now, cx = [], io = mock_socks5\<rparr>
                    else \<lparr>dial = Connect_failed, cx = [], io = mock_socks5\<rparr>),
      test_host = ''example.org'', test_port = 6667, calloc_ok = True, threads = 2\<rparr>"

lemma bench_sweep:
  "map_option fst (check_and_validate_proxies bench 5000 two_proxies) = Some 1"
  by (simp add: check_and_validate_proxies_def two_proxies_def calloc_proxy_def bench_def
        snapshot_loop.simps remove_loop.simps validate_def order_of_def open_proxy_socket_def
        perform_proxy_handshake_def record_outcome_def has_credentials_def ret_def
        remove_proxy_from_list_def unlink_prev_def unlink_next_def move_cursor_def
        set_next_def set_parent_def del_proxy_def
        PROXY_VALIDATOR_DEFAULT_CONCURRENCY_def PROXY_VALIDATOR_MAX_CONCURRENCY_def
        PROXY_VALIDATOR_DEFAULT_TIMEOUT_MS_def socks5_eval io_eval)

theorem check_and_validate_proxies_sweep_witness:
  "pool_wf two_proxies [0, 1] \<and> calloc_ok bench \<and>
   (\<exists>s' as'. check_and_validate_proxies bench 5000 two_proxies = Some (1, s') \<and>
      pool_wf s' as' \<and> length as' = 1 \<and>
      list_all (\<lambda>a. case heap s' a of
                       None \<Rightarrow> False
                     | Some n \<Rightarrow> validated n \<noteq> 0 \<and> is_active n \<noteq> 0 \<and>
                                detected_type n \<noteq> PROXY_NONE) as')"
proof -
  have c: "calloc_ok bench" by (simp add: bench_def)
  from check_and_validate_proxies_sweep [OF two_proxies_wf c, of 5000]
  obtain r s' as' where
    r: "check_and_validate_proxies bench 5000 two_proxies = Some (r, s')"
    and w: "pool_wf s' as'"
    and ok: "list_all (\<lambda>a. case heap s' a of
                       None \<Rightarrow> False
                     | Some n \<Rightarrow> validated n \<noteq> 0 \<and> is_active n \<noteq> 0 \<and>
                                detected_type n \<noteq> PROXY_NONE) as'"
    and n: "r = (if [0, 1 :: addr] = [] then - 1 else int (length as'))"
    by blast
  from r bench_sweep have "r = 1" by simp
  with r w ok n c two_proxies_wf show ?thesis by auto
qed


section \<open>The reply of an HTTP proxy\<close>










text \<open>
  \<open>ends_blank buf\<close>: the bytes end with an empty line. \<open>header_read buf s r\<close>: the loop
  of \<^verbatim>\<open>http_connect\<close> that started with \<open>buf\<close> on the socket \<open>s\<close> has either failed, or
  appended what the socket delivered up to the end of the first empty line, or up to
  2047 bytes in all.
\<close>

definition ends_blank :: "byte list \<Rightarrow> bool" where
  "ends_blank buf = (4 \<le> length buf \<and> drop (length buf - 4) buf = bytes_of (CRLF @ CRLF))"


lemma ends_blank_test:
  "(4 \<le> length buf \<and> take 4 (drop (length buf - 4) buf) = bytes_of (CRLF @ CRLF)) = ends_blank buf"
  by (auto simp: ends_blank_def)



text \<open>
  \<open>is_header buf\<close>: \<open>buf\<close> is what the loop accepts as a response: it ends with its
  first empty line, or it has 2047 bytes and no empty line before.
\<close>

definition is_header :: "byte list \<Rightarrow> bool" where
  "is_header buf =
     (buf \<noteq> [] \<and> length buf \<le> 2047 \<and> (ends_blank buf \<or> length buf = 2047) \<and>
      list_all (\<lambda>k. \<not> ends_blank (take k buf)) [1..<length buf])"

lemma read_one:
  assumes "rx s = [(d, Rdata (x # xs))]" and "d \<le> 10000"
  shows "\<exists>s1. safe_read_with_timeout s 1 10 = (1, None, [x], s1) \<and>
              rx s1 = (if xs = [] then [] else [(0, Rdata xs)])"
  using assms by (simp add: safe_read_with_timeout_def safe_read_loop.simps Let_def)

lemma http_read_response_whole:
  "rx s = [(d, Rdata bs)] \<Longrightarrow> d \<le> 10000 \<Longrightarrow> bs \<noteq> [] \<Longrightarrow> len = length buf \<Longrightarrow>
   length (buf @ bs) \<le> 2047 \<Longrightarrow> ends_blank (buf @ bs) \<or> length (buf @ bs) = 2047 \<Longrightarrow>
   \<forall>k. length buf < k \<and> k < length (buf @ bs) \<longrightarrow> \<not> ends_blank (take k (buf @ bs)) \<Longrightarrow>
   fst (http_read_response s buf len) = Inr (buf @ bs)"
proof (induction bs arbitrary: s d buf len)
  case Nil
  then show ?case by simp
next
  case (Cons x xs)
  from Cons.prems have lt: "len < 2047" by simp
  from read_one [OF Cons.prems(1,2)] obtain s1 where
    rd: "safe_read_with_timeout s 1 10 = (1, None, [x], s1)"
    and rx1: "rx s1 = (if xs = [] then [] else [(0, Rdata xs)])"
    by blast
  let ?buf = "buf @ [x]"
  have l1: "len + 1 = length ?buf" using Cons.prems(4) by simp
  show ?case
  proof (cases "ends_blank ?buf")
    case True
    have "xs = []"
    proof (rule ccontr)
      assume "xs \<noteq> []"
      then have "length buf < length ?buf \<and> length ?buf < length (buf @ x # xs)"
        by (cases xs) simp_all
      with Cons.prems(7) have "\<not> ends_blank (take (length ?buf) (buf @ x # xs))" by blast
      with True show False by simp
    qed
    moreover have "http_read_response s buf len = (Inr ?buf, s1)"
      using lt rd True ends_blank_test [of ?buf] unfolding l1 [symmetric]
      by (subst http_read_response.simps) (simp add: Let_def del: take_append drop_append)
    ultimately show ?thesis by simp
  next
    case False
    have t: "\<not> (4 \<le> len + 1 \<and>
                take 4 (drop (len + 1 - 4) (buf @ [x])) = bytes_of (CRLF @ CRLF))"
      using False ends_blank_test [of ?buf] unfolding l1 by simp
    have eq: "http_read_response s buf len = http_read_response s1 ?buf (len + 1)"
      using lt rd t
      by (subst http_read_response.simps) (auto simp: Let_def simp del: take_append drop_append)
    show ?thesis
    proof (cases "xs = []")
      case True
      with Cons.prems(6) False have "length ?buf = 2047" by simp
      with l1 have "http_read_response s1 ?buf (len + 1) = (Inr ?buf, s1)"
        by (subst http_read_response.simps) simp
      with eq True show ?thesis by simp
    next
      case ne: False
      with rx1 have r: "rx s1 = [(0, Rdata xs)]" by simp
      have a: "length (?buf @ xs) \<le> 2047" using Cons.prems(5) by simp
      have b: "ends_blank (?buf @ xs) \<or> length (?buf @ xs) = 2047"
        using Cons.prems(6) by simp
      have c: "\<forall>k. length ?buf < k \<and> k < length (?buf @ xs) \<longrightarrow>
                   \<not> ends_blank (take k (?buf @ xs))"
        using Cons.prems(7) by simp
      from Cons.IH [OF r _ ne l1 a b c] eq show ?thesis by simp
    qed
  qed
qed


lemma http_read_response_sent: "sent (snd (http_read_response s buf len)) = sent s"
proof (induction s buf len rule: http_read_response.induct)
  case (1 s buf len)
  show ?case
  proof (cases "len < 2047")
    case False
    then show ?thesis by (subst http_read_response.simps) simp
  next
    case lt: True
    obtain n e b s1 where rd: "safe_read_with_timeout s 1 10 = (n, e, b, s1)"
      by (cases "safe_read_with_timeout s 1 10") auto
    note p1 = rd_sent [OF rd]
    show ?thesis
    proof (cases "n \<le> 0")
      case True
      with lt rd p1 show ?thesis by (subst http_read_response.simps) simp
    next
      case pos: False
      show ?thesis
      proof (cases "4 \<le> len + nat n \<and>
                    take 4 (drop (len + nat n - 4) (buf @ b)) = bytes_of (CRLF @ CRLF)")
        case True
        with lt rd p1 pos show ?thesis
          by (subst http_read_response.simps) (simp add: Let_def del: take_append drop_append)
      next
        case False
        from lt have nn: "\<not> \<not> len < 2047" by simp
        from "1.IH" [OF nn rd [symmetric] refl refl pos refl refl False] p1
        have "sent (snd (http_read_response s1 (buf @ b) (len + nat n))) = sent s" by simp
        with lt rd pos False show ?thesis
          by (subst http_read_response.simps) (auto simp: Let_def simp del: take_append drop_append)
      qed
    qed
  qed
qed

text \<open>A socket that accepts 2048 bytes at once, as \<open>mock_http\<close> does, takes the whole request.\<close>

lemma write_at_once:
  assumes "tx s = [(0, Wacc 2048)]" and "buf \<noteq> []" and "length buf \<le> 2048"
  shows "\<exists>s1. safe_write_with_timeout s buf 10 = (int (length buf), None, s1) \<and>
              rx s1 = rx s \<and> sent s1 = sent s @ buf"
proof -
  have fin: "safe_write_loop 10 buf (length buf) s2 = (int (length buf), None, s2)" for s2
    by (subst safe_write_loop.simps) simp
  from assms(2,3) have m: "min 2048 (length buf) = length buf" "0 < length buf" by simp_all
  show ?thesis
    unfolding safe_write_with_timeout_def
    by (subst safe_write_loop.simps) (simp add: assms(1) m Let_def fin)
qed



text \<open>
  A request of exactly 2048 characters: the array holds its first 2047 characters
  and the NUL, these 2048 bytes are written, and the response is read.
\<close>

lemma http_exchange_2048:
  "length (http_request (replicate 990 (CHR ''x'')) 80 (Some ''a'') (Some ''b'')) = 2048 \<and>
   fst (http_exchange (mock_http http_200) (replicate 990 (CHR ''x'')) 80 (Some ''a'') (Some ''b''))
     = Inr (bytes_of http_200) \<and>
   sent (snd (http_exchange (mock_http http_200) (replicate 990 (CHR ''x'')) 80 (Some ''a'')
     (Some ''b''))) =
     bytes_of (take 2047 (http_request (replicate 990 (CHR ''x'')) 80 (Some ''a'') (Some ''b''))) @ [0]"
proof -
  let ?h = "replicate 990 (CHR ''x'')"
  let ?rq = "http_request ?h 80 (Some ''a'') (Some ''b'')"
  have l: "length ?rq = 2048"
    by (simp add: http_request_a_b fmt_d_def dec.simps CRLF_def)
  have b: "http_buffer ?h 80 (Some ''a'') (Some ''b'') = Some (take 2047 ?rq, 2048)"
    by (simp add: http_buffer_def http_request_def snprintf_buf_def nonempty_def fmt_d_def
          dec.simps CRLF_def bytes_of_def b64_def base64_def)
  let ?buf = "bytes_of (take 2047 ?rq) @ [0]"
  have lb: "length ?buf = 2048" using l by (simp add: bytes_of_def)
  have ne: "?buf \<noteq> []" by simp
  from write_at_once [of "mock_http http_200" ?buf] lb ne obtain s1 where
    wr: "safe_write_with_timeout (mock_http http_200) ?buf 10 = (2048, None, s1)"
    and rx: "rx s1 = [(120, Rdata (bytes_of http_200))]" and st: "sent s1 = ?buf"
    by (auto simp: mock_http_def)
  have hd: "is_header (bytes_of http_200)"
    by (simp add: is_header_def ends_blank_def http_200_def bytes_of_def CRLF_def)
  then have c: "bytes_of http_200 \<noteq> []" "length ([] @ bytes_of http_200) \<le> 2047"
    "ends_blank ([] @ bytes_of http_200) \<or> length ([] @ bytes_of http_200) = 2047"
    "\<forall>k. length ([] :: byte list) < k \<and> k < length ([] @ bytes_of http_200) \<longrightarrow>
         \<not> ends_blank (take k ([] @ bytes_of http_200))"
    by (auto simp: is_header_def list_all_iff)
  from http_read_response_whole [OF rx _ c(1) _ c(2) c(3) c(4), of 0]
  have rd: "fst (http_read_response s1 [] 0) = Inr (bytes_of http_200)" by simp
  obtain s' where r: "http_read_response s1 [] 0 = (Inr (bytes_of http_200), s')"
    using rd by (cases "http_read_response s1 [] 0") simp
  from http_read_response_sent [of s1 "[]" 0] r st have "sent s' = ?buf" by simp
  with l wr r lb show ?thesis
    unfolding http_exchange_def b by (simp add: Let_def)
qed



lemma unat_of_char: "unat (of_char c :: byte) = of_char c"
proof -
  have "(of_char c :: byte) = of_nat (of_char c)" by (simp only: of_nat_of_char)
  then have "unat (of_char c :: byte) = of_char c mod 256" by (simp only: unat_of_nat) simp
  with nat_of_char_less_256 [of c] show ?thesis by simp
qed

lemma unat_bytes_of: "map unat (bytes_of str) = map of_char str"
  by (simp add: bytes_of_def comp_def unat_of_char)
















section \<open>Rotation and the flags of a proxy\<close>

text \<open>
  The rotation in the words of the specification: from the entry behind the
  cursor to the tail and on from the head, the first entry that is validated and
  active; none if no entry is.
\<close>

definition scan_order :: "addr option \<Rightarrow> addr list \<Rightarrow> addr list" where
  "scan_order cursor as =
     (case cursor of
        None \<Rightarrow> as
      | Some c \<Rightarrow> drop 1 (dropWhile (\<lambda>a. a \<noteq> c) as) @ takeWhile (\<lambda>a. a \<noteq> c) as @
                  take 1 (dropWhile (\<lambda>a. a \<noteq> c) as))"

definition active_at :: "(addr \<Rightarrow> proxy option) \<Rightarrow> addr \<Rightarrow> bool" where
  "active_at h a =
     (case h a of None \<Rightarrow> False | Some n \<Rightarrow> validated n \<noteq> 0 \<and> is_active n \<noteq> 0)"

definition next_active :: "state \<Rightarrow> addr list \<Rightarrow> addr option" where
  "next_active s as = find (active_at (heap s)) (scan_order (current_proxy s) as)"

text \<open>The scan from the cursor at position \<open>i\<close> starts at position \<open>i + 1\<close>, or at the head.\<close>

lemma takeWhile_neq_nth:
  "distinct as \<Longrightarrow> i < length as \<Longrightarrow> takeWhile (\<lambda>a. a \<noteq> as ! i) as = take i as"
  by (rule takeWhile_eq_take_P_nth) (auto simp: nth_eq_iff_index_eq)

lemma dropWhile_neq_nth:
  "distinct as \<Longrightarrow> i < length as \<Longrightarrow> dropWhile (\<lambda>a. a \<noteq> as ! i) as = drop i as"
  by (simp add: dropWhile_eq_drop takeWhile_neq_nth)

lemma scan_order_at:
  assumes "distinct as" and "i < length as"
  shows "scan_order (Some (as ! i)) as = drop (Suc i) as @ take (Suc i) as"
  using assms
  by (simp add: scan_order_def takeWhile_neq_nth dropWhile_neq_nth take_Suc_conv_app_nth
        drop_Suc [symmetric] Cons_nth_drop_Suc [symmetric])

lemma hd_scan_order:
  assumes "distinct as" and "i < length as"
  shows "\<exists>rest. scan_order (Some (as ! i)) as = as ! (Suc i mod length as) # rest"
proof (cases "Suc i < length as")
  case True
  then have "drop (Suc i) as = as ! Suc i # drop (Suc (Suc i)) as"
    by (simp add: Cons_nth_drop_Suc)
  with True assms show ?thesis by (simp add: scan_order_at)
next
  case False
  with assms(2) have e: "Suc i = length as" by simp
  from assms(2) obtain x xs where c: "as = x # xs" by (cases as) auto
  then have "scan_order (Some (as ! i)) as = as ! (Suc i mod length as) # xs"
    using e assms by (simp add: scan_order_at)
  then show ?thesis by blast
qed

text \<open>An entry that a sweep has marked as working is validated and active.\<close>

lemma active_of_working: "working_at h a \<Longrightarrow> active_at h a"
  by (auto simp: working_at_iff active_at_def split: option.splits)

text \<open>
  Where every entry is working, as in the pool that a sweep leaves, the entry
  behind the cursor is the next active one, and \<^verbatim>\<open>next_proxy\<close> returns it.
\<close>

lemma next_proxy_working_pool:
  assumes "pool_wf s as" and "list_all (working_at (heap s)) as"
  shows "\<exists>s'. next_proxy s = Some (next_active s as, s') \<and> heap s' = heap s \<and> pool_wf s' as"
proof (cases "as = []")
  case True
  with assms(1) have "proxy_list s = None" "current_proxy s = None"
    by (cases "current_proxy s"; simp add: pool_wf_def pool_list_def)+
  with True assms(1) show ?thesis
    by (simp add: next_proxy_def next_active_def scan_order_def)
next
  case ne: False
  from assms(1) have di: "distinct as" by (simp add: pool_wf_def pool_list_def)
  from assms(2) have act: "\<And>a. a \<in> set as \<Longrightarrow> active_at (heap s) a"
    by (auto simp: list_all_iff intro: active_of_working)
  obtain j where j: "j < length as" and na: "next_active s as = Some (as ! j)"
    and np: "next_proxy s = Some (Some (as ! j), s\<lparr>current_proxy := Some (as ! j)\<rparr>)"
  proof (cases "current_proxy s")
    case None
    from ne have "find (active_at (heap s)) as = Some (as ! 0)"
      by (cases as) (simp_all add: act)
    with None ne next_proxy_unset [OF assms(1) ne None] show ?thesis
      by (intro that [of 0]) (simp_all add: next_active_def scan_order_def)
  next
    case (Some c)
    with assms(1) have "c \<in> set as" by (simp add: pool_wf_def)
    then obtain i where i: "i < length as" "c = as ! i" by (auto simp: in_set_conv_nth)
    let ?j = "Suc i mod length as"
    from i(1) have lt: "?j < length as" by (intro mod_less_divisor) auto
    from hd_scan_order [OF di i(1)] obtain rest where
      "scan_order (Some (as ! i)) as = as ! ?j # rest" by blast
    with lt Some i have "next_active s as = Some (as ! ?j)"
      by (simp add: next_active_def act)
    with lt next_proxy_at [OF assms(1) i(1)] Some i show ?thesis
      by (intro that [of ?j]) simp_all
  qed
  show ?thesis
    using np na pool_wf_cursor [OF assms(1) j]
    by (intro exI [of _ "s\<lparr>current_proxy := Some (as ! j)\<rparr>"]) simp
qed





section \<open>Saving the pool after a sweep\<close>

text \<open>In the pool that a sweep leaves, the \<^verbatim>\<open>type\<close> of every proxy is its \<^verbatim>\<open>detected_type\<close>.\<close>

lemma typed_nodes:
  "list_all (typed_at (heap s)) as \<Longrightarrow> list_all (\<lambda>p. type p = detected_type p) (nodes s as)"
  by (auto simp: list_all_iff nodes_def typed_at_def mark_at_def marks_def split: option.splits)

lemma spec_lines:
  "list_all (\<lambda>p. type p = detected_type p) ps \<Longrightarrow>
   concat (map proxy_line ps) = concat (map spec_line ps)"
proof -
  assume "list_all (\<lambda>p. type p = detected_type p) ps"
  then have "map proxy_line ps = map spec_line ps"
    by (auto simp: list_all_iff proxy_line_def spec_line_def)
  then show ?thesis by (rule arg_cong)
qed

lemma save_pool:
  assumes "pool_wf s as"
  shows "save_validated_proxies fopen_w filename s =
           (if fopen_w filename
            then Some (int (length as), Some (concat (map proxy_line (nodes s as))))
            else Some (- 1, None))"
proof -
  from assms have d: "dll (heap s) None as" and pl: "proxy_list s = first_of as"
    by (simp_all add: pool_wf_def pool_list_def)
  from save_loop_dll [OF d, of "[]" 0] pl show ?thesis
    by (simp add: save_validated_proxies_def nodes_def comp_def)
qed

text \<open>The pool that the sweep of \<open>two_proxies\<close> on the test bench leaves.\<close>

lemma bench_pool:
  "\<exists>s. check_and_validate_proxies bench 5000 two_proxies = Some (1, s) \<and>
        proxy_list s = Some 0 \<and> proxy_tail s = Some 0 \<and> current_proxy s = None \<and>
        proxy_count s = 1 \<and> brk s = 2 \<and>
        heap s 0 = Some (calloc_proxy\<lparr>host := Some ''192.0.2.1'', port := 1080,
                           type := PROXY_SOCKS5, detected_type := PROXY_SOCKS5,
                           is_active := 1, validated := 1\<rparr>)"
  by (simp add: check_and_validate_proxies_def two_proxies_def calloc_proxy_def bench_def
        snapshot_loop.simps remove_loop.simps validate_def order_of_def open_proxy_socket_def
        perform_proxy_handshake_def record_outcome_def has_credentials_def ret_def
        remove_proxy_from_list_def unlink_prev_def unlink_next_def move_cursor_def
        set_next_def set_parent_def del_proxy_def
        PROXY_VALIDATOR_DEFAULT_CONCURRENCY_def PROXY_VALIDATOR_MAX_CONCURRENCY_def
        PROXY_VALIDATOR_DEFAULT_TIMEOUT_MS_def socks5_eval io_eval)

text \<open>
  Claim C8, amended. If the file cannot be opened, \<^verbatim>\<open>save_validated_proxies\<close> writes
  nothing and returns \<open>-1\<close>. If it can, the function writes one line per proxy of
  the pool, in list order, and returns their number. The line is the scheme of the
  proxy's \<^verbatim>\<open>type\<close>, the credentials if both are non-empty, the host and the port.
  In the pool that a sweep leaves, \<^verbatim>\<open>type\<close> equals \<^verbatim>\<open>detected_type\<close> for every proxy,
  and the lines written are the lines of the specification.
\<close>

theorem save_validated_proxies_lines:
  "(\<not> fopen_w filename \<longrightarrow> save_validated_proxies fopen_w filename s = Some (- 1, None)) \<and>
   (pool_wf s as \<and> fopen_w filename \<longrightarrow>
      save_validated_proxies fopen_w filename s =
        Some (int (length as), Some (concat (map proxy_line (nodes s as))))) \<and>
   (\<forall>p. proxy_line p =
      scheme_of (type p) @
      (if username p \<noteq> None \<and> username p \<noteq> Some [] \<and>
          password p \<noteq> None \<and> password p \<noteq> Some []
       then fmt_s (username p) @ '':'' @ fmt_s (password p) @ ''@'' else []) @
      fmt_s (host p) @ '':'' @ fmt_d (port p) @ [CHR 0x0A]) \<and>
   (pool_wf s as \<and> calloc_ok env \<longrightarrow>
      (\<exists>r s' as'. check_and_validate_proxies env timeout_ms s = Some (r, s') \<and>
         pool_wf s' as' \<and>
         list_all (\<lambda>p. type p = detected_type p) (nodes s' as') \<and>
         (fopen_w filename \<longrightarrow>
            save_validated_proxies fopen_w filename s' =
              Some (int (length as'), Some (concat (map spec_line (nodes s' as')))))))"
proof (intro conjI impI allI)
  assume "\<not> fopen_w filename"
  then show "save_validated_proxies fopen_w filename s = Some (- 1, None)"
    by (simp add: save_validated_proxies_def)
next
  assume a: "pool_wf s as \<and> fopen_w filename"
  then have "pool_wf s as" by simp
  from save_pool [OF this, of fopen_w filename] a
  show "save_validated_proxies fopen_w filename s =
        Some (int (length as), Some (concat (map proxy_line (nodes s as))))"
    by simp
next
  fix p
  show "proxy_line p =
      scheme_of (type p) @
      (if username p \<noteq> None \<and> username p \<noteq> Some [] \<and>
          password p \<noteq> None \<and> password p \<noteq> Some []
       then fmt_s (username p) @ '':'' @ fmt_s (password p) @ ''@'' else []) @
      fmt_s (host p) @ '':'' @ fmt_d (port p) @ [CHR 0x0A]"
    by (auto simp: proxy_line_def credentials_def nonempty_def split: option.splits)
next
  assume a: "pool_wf s as \<and> calloc_ok env"
  with check_and_validate_proxies_working [of s as env timeout_ms]
  obtain r s' as' where r: "check_and_validate_proxies env timeout_ms s = Some (r, s')"
    and wf: "pool_wf s' as'" and ty: "list_all (typed_at (heap s')) as'"
    by blast
  note eq = typed_nodes [OF ty]
  have "fopen_w filename \<longrightarrow>
        save_validated_proxies fopen_w filename s' =
          Some (int (length as'), Some (concat (map spec_line (nodes s' as'))))"
    using save_pool [OF wf, of fopen_w filename] spec_lines [OF eq] by simp
  with r wf eq
  show "\<exists>r s' as'. check_and_validate_proxies env timeout_ms s = Some (r, s') \<and>
         pool_wf s' as' \<and>
         list_all (\<lambda>p. type p = detected_type p) (nodes s' as') \<and>
         (fopen_w filename \<longrightarrow>
            save_validated_proxies fopen_w filename s' =
              Some (int (length as'), Some (concat (map spec_line (nodes s' as')))))"
    by blast
qed

text \<open>
  The pool of two proxies as loaded, saved to a file that can be opened and to one
  that cannot, and the pool that the sweep on the test bench leaves.
\<close>

theorem save_validated_proxies_lines_witness:
  "pool_wf two_proxies [0, 1] \<and> calloc_ok bench \<and>
   save_validated_proxies (\<lambda>f. f = ''out.txt'') ''/proc/out.txt'' two_proxies = Some (- 1, None) \<and>
   save_validated_proxies (\<lambda>f. f = ''out.txt'') ''out.txt'' two_proxies =
     Some (2, Some (''192.0.2.1:1080'' @ [CHR 0x0A] @ ''192.0.2.2:8080'' @ [CHR 0x0A])) \<and>
   (\<exists>s' as'. check_and_validate_proxies bench 5000 two_proxies = Some (1, s') \<and>
      pool_wf s' as' \<and> list_all (\<lambda>p. type p = detected_type p) (nodes s' as') \<and>
      save_validated_proxies (\<lambda>f. f = ''out.txt'') ''out.txt'' s' =
        Some (1, Some (''socks5://192.0.2.1:1080'' @ [CHR 0x0A])) \<and>
      save_validated_proxies (\<lambda>f. f = ''out.txt'') ''out.txt'' s' =
        Some (int (length as'), Some (concat (map spec_line (nodes s' as')))))"
proof -
  let ?fo = "\<lambda>f. f = ''out.txt''"
  have c: "calloc_ok bench" by (simp add: bench_def)
  note t1 = save_validated_proxies_lines [of ?fo "''/proc/out.txt''" two_proxies "[0, 1]" bench 5000]
  note t2 = save_validated_proxies_lines [of ?fo "''out.txt''" two_proxies "[0, 1]" bench 5000]
  have no: "save_validated_proxies ?fo ''/proc/out.txt'' two_proxies = Some (- 1, None)"
    using t1 by simp
  have ls: "concat (map proxy_line (nodes two_proxies [0, 1])) =
        ''192.0.2.1:1080'' @ [CHR 0x0A] @ ''192.0.2.2:8080'' @ [CHR 0x0A]"
    by (simp add: nodes_def two_proxies_def calloc_proxy_def proxy_line_def scheme_of_def
          credentials_def nonempty_def fmt_s_def fmt_d_def dec.simps)
  have yes: "save_validated_proxies ?fo ''out.txt'' two_proxies =
     Some (2, Some (''192.0.2.1:1080'' @ [CHR 0x0A] @ ''192.0.2.2:8080'' @ [CHR 0x0A]))"
    using t2 two_proxies_wf ls by simp
  from t2 two_proxies_wf c obtain r s' as' where
    r: "check_and_validate_proxies bench 5000 two_proxies = Some (r, s')"
    and wf: "pool_wf s' as'"
    and ty: "list_all (\<lambda>p. type p = detected_type p) (nodes s' as')"
    and sv: "save_validated_proxies ?fo ''out.txt'' s' =
              Some (int (length as'), Some (concat (map spec_line (nodes s' as'))))"
    by auto
  from bench_pool r have r1: "r = 1" and pl: "proxy_list s' = Some 0"
    and h: "heap s' 0 = Some (calloc_proxy\<lparr>host := Some ''192.0.2.1'', port := 1080,
                           type := PROXY_SOCKS5, detected_type := PROXY_SOCKS5,
                           is_active := 1, validated := 1\<rparr>)"
    by auto
  have out: "save_validated_proxies ?fo ''out.txt'' s' =
        Some (1, Some (''socks5://192.0.2.1:1080'' @ [CHR 0x0A]))"
    using pl h
    by (simp add: save_validated_proxies_def save_loop.simps calloc_proxy_def proxy_line_def
          scheme_of_def credentials_def nonempty_def fmt_s_def fmt_d_def dec.simps)
  from r r1 wf ty sv out no yes two_proxies_wf c show ?thesis by blast
qed


section \<open>The time a worker spends on one proxy\<close>

text \<open>
  The bound in the words of the specification, for a connect timeout and a
  handshake timeout in milliseconds. In the code the connect timeout is the
  \<^verbatim>\<open>timeout_ms\<close> of the sweep, and the handshakes pass ten seconds to every call of
  \<^verbatim>\<open>safe_read_with_timeout\<close> and \<^verbatim>\<open>safe_write_with_timeout\<close>.
\<close>

definition spec_budget :: "int \<Rightarrow> int \<Rightarrow> nat" where
  "spec_budget connect_timeout_ms handshake_timeout_ms =
     nat (connect_timeout_ms + 3 * handshake_timeout_ms)"

definition elapsed_ms :: "probe \<Rightarrow> int \<Rightarrow> nat \<Rightarrow> addr \<Rightarrow> proxy \<Rightarrow> nat" where
  "elapsed_ms env timeout_ms start_ms a p = finished (validate env timeout_ms start_ms a p) - start_ms"

text \<open>
  An HTTP proxy of declared type that accepts the connection at once and sends its
  response one byte every nine seconds.
\<close>

definition slow_response :: string where
  "slow_response = ''HTTP/1.1 200 Connection established'' @ CRLF @ CRLF"

definition slow_http :: sock where
  "slow_http =
     \<lparr>rx = map (\<lambda>c. (9000, Rdata [c])) (bytes_of slow_response), tx = [(0, Wacc 2048)],
      sent = [], clock = 0, polls = []\<rparr>"

definition slow_bench :: probe where
  "slow_bench =
     \<lparr>resolve4 = (\<lambda>h. (None, 0)),
      net = (\<lambda>a i. \<lparr>dial = Connect_now, cx = [], io = slow_http\<rparr>),
      test_host = ''example.org'', test_port = 6667, calloc_ok = True, threads = 1\<rparr>"

definition slow_proxy :: proxy where
  "slow_proxy = calloc_proxy\<lparr>host := Some ''192.0.2.1'', port := 8080, type := PROXY_HTTP\<rparr>"

text \<open>The worker keeps this proxy: one poll for the request, and one for each of the 39 bytes.\<close>

lemma slow_validate:
  "validate slow_bench 5000 0 0 slow_proxy =
     \<lparr>keep_proxy = True, detected = PROXY_HTTP, connect_rtt_ms = 0, finished = 351000,
      handshake_polls = 40\<rparr>"
  by (simp add: validate_def order_of_def slow_proxy_def calloc_proxy_def slow_bench_def
        open_proxy_socket_def perform_proxy_handshake_def slow_http_def slow_response_def
        ret_def http_connect_def http_exchange_fits http_request_def fmt_d_def dec.simps CRLF_def
        http_read_response.simps http_reply_def atoi_def strtol_def isspace_def isdigit_def
        LONG_MAX_def io_eval)


text \<open>Every handshake polls with ten seconds, whatever it reads and writes.\<close>

lemma rd_polled: "safe_read_with_timeout s c t = (n, e, b, s') \<Longrightarrow> polled t s s'"
  using safe_read_loop_polled [of t s c "[]"] by (simp add: safe_read_with_timeout_def)

lemma wr_polled: "safe_write_with_timeout s buf t = (n, e, s') \<Longrightarrow> polled t s s'"
  using safe_write_loop_polled [of t s buf 0] by (simp add: safe_write_with_timeout_def)

lemma socks5_drain_polled: "socks5_drain s hdr = (r, s') \<Longrightarrow> polled 10 s s'"
  by (auto simp: socks5_drain_def Let_def split: if_splits prod.splits dest!: rd_polled
        intro: polled_refl polled_trans)

lemma socks5_tunnel_polled: "socks5_tunnel s dest_host dest_port = (r, s') \<Longrightarrow> polled 10 s s'"
  by (auto simp: socks5_tunnel_def Let_def split: if_splits prod.splits
        dest!: rd_polled wr_polled socks5_drain_polled intro: polled_refl polled_trans)

lemma socks5_connect_polled:
  "socks5_connect s dest_host dest_port uname passwd = (r, s') \<Longrightarrow> polled 10 s s'"
  apply (auto simp: socks5_connect_def Let_def split: if_splits prod.splits option.splits
        dest!: rd_polled wr_polled socks5_tunnel_polled intro: polled_refl polled_trans)
  apply (blast intro: polled_trans)+
  done

lemma socks4_connect_polled:
  "socks4_connect resolve s dest_host dest_port userid = (r, s') \<Longrightarrow>
   polled 10 (s\<lparr>clock := clock s + snd (resolve dest_host)\<rparr>) s'"
  by (auto simp: socks4_connect_def Let_def split: if_splits prod.splits option.splits
        dest!: rd_polled wr_polled intro: polled_refl polled_trans)

lemma http_read_response_polled: "polled 10 s (snd (http_read_response s buf len))"
proof (induction s buf len rule: http_read_response.induct)
  case (1 s buf len)
  show ?case
  proof (cases "len < 2047")
    case False
    then show ?thesis by (subst http_read_response.simps) (simp add: polled_refl)
  next
    case lt: True
    obtain n e b s1 where rd: "safe_read_with_timeout s 1 10 = (n, e, b, s1)"
      by (cases "safe_read_with_timeout s 1 10") auto
    note p1 = rd_polled [OF rd]
    show ?thesis
    proof (cases "n \<le> 0")
      case True
      with lt rd p1 show ?thesis by (subst http_read_response.simps) simp
    next
      case pos: False
      show ?thesis
      proof (cases "4 \<le> len + nat n \<and>
                    take 4 (drop (len + nat n - 4) (buf @ b)) = bytes_of (CRLF @ CRLF)")
        case True
        with lt rd p1 pos show ?thesis
          by (subst http_read_response.simps) (simp add: Let_def del: take_append drop_append)
      next
        case False
        from lt have nn: "\<not> \<not> len < 2047" by simp
        from "1.IH" [OF nn rd [symmetric] refl refl pos refl refl False]
        have "polled 10 s1 (snd (http_read_response s1 (buf @ b) (len + nat n)))" .
        with p1 have "polled 10 s (snd (http_read_response s1 (buf @ b) (len + nat n)))"
          by (rule polled_trans)
        with lt rd pos False show ?thesis
          by (subst http_read_response.simps) (auto simp: Let_def simp del: take_append drop_append)
      qed
    qed
  qed
qed

lemma http_exchange_polled:
  "polled 10 s (snd (http_exchange s dest_host dest_port uname passwd))"
proof (cases "http_buffer dest_host dest_port uname passwd")
  case None
  then show ?thesis by (simp add: http_exchange_def polled_refl)
next
  case (Some bl)
  obtain str len where bl: "bl = (str, len)" by (cases bl)
  let ?buf = "take len (bytes_of str @ [0])"
  obtain n e s1 where wr: "safe_write_with_timeout s ?buf 10 = (n, e, s1)"
    by (cases "safe_write_with_timeout s ?buf 10") auto
  from polled_trans [OF wr_polled [OF wr] http_read_response_polled [of s1 "[]" 0]]
    wr_polled [OF wr] wr Some bl
  show ?thesis by (simp add: http_exchange_def Let_def polled_refl)
qed

lemma http_connect_polled:
  "http_connect s dest_host dest_port uname passwd = (r, s') \<Longrightarrow> polled 10 s s'"
  using http_exchange_polled [of s dest_host dest_port uname passwd]
  by (auto simp: http_connect_def split: prod.splits sum.splits)

text \<open>
  \<open>waited t w s s'\<close>: as \<open>polled\<close>, with \<open>w\<close> more milliseconds that have passed outside
  the polls.
\<close>

definition waited :: "int \<Rightarrow> nat \<Rightarrow> sock \<Rightarrow> sock \<Rightarrow> bool" where
  "waited t w s s' =
     (\<exists>ps. polls s' = polls s @ ps \<and> map snd ps = replicate (length ps) (1000 * t) \<and>
           clock s' \<le> clock s + length ps * nat (1000 * t) + w)"

lemma polled_waited: "polled t s s' \<Longrightarrow> waited t w s s'"
  by (auto simp: polled_def waited_def)

lemma socks4_connect_waited:
  "socks4_connect resolve s dest_host dest_port userid = (r, s') \<Longrightarrow>
   waited 10 (snd (resolve dest_host)) s s'"
  by (drule socks4_connect_polled) (auto simp: polled_def waited_def)

text \<open>The lookup of a SOCKS4 attempt; the other handshakes resolve nothing.\<close>

definition lookup_ms :: "resolve4 \<Rightarrow> proxy_type \<Rightarrow> string \<Rightarrow> nat" where
  "lookup_ms resolve t dest_host = (if t = PROXY_SOCKS4 then snd (resolve dest_host) else 0)"

lemma perform_proxy_handshake_waited:
  "perform_proxy_handshake resolve s p t dest_host dest_port = (r, s') \<Longrightarrow>
   waited 10 (lookup_ms resolve t dest_host) s s'"
  by (cases t)
     (auto simp: perform_proxy_handshake_def lookup_ms_def
        intro: polled_waited polled_refl
        dest: socks5_connect_polled socks4_connect_waited http_connect_polled)

text \<open>A connection attempt is over when \<open>timeout_ms\<close> have passed.\<close>

lemma connect_loop_deadline:
  "start \<le> now \<Longrightarrow> now \<le> start + nat timeout_ms \<Longrightarrow>
   snd (connect_loop timeout_ms start now evs) \<le> start + nat timeout_ms"
proof (induction evs arbitrary: now)
  case Nil
  then show ?case by (auto simp: Let_def)
next
  case (Cons ev evs)
  obtain d st where ev: "ev = (d, st)" by (cases ev)
  show ?case
  proof (cases "timeout_ms - (int now - int start) \<le> 0")
    case True
    with Cons.prems ev show ?thesis by (simp add: Let_def)
  next
    case rem: False
    show ?thesis
    proof (cases "nat (timeout_ms - (int now - int start)) < d")
      case True
      with rem Cons.prems ev show ?thesis by (auto simp: Let_def)
    next
      case False
      with rem Cons.prems have le: "now + d \<le> start + nat timeout_ms" by linarith
      from Cons.prems have st': "start \<le> now + d" by simp
      from Cons.IH [OF st' le] le rem False ev show ?thesis
        by (cases st) (simp_all add: Let_def)
    qed
  qed
qed

lemma open_proxy_socket_deadline:
  "snd (open_proxy_socket l timeout_ms now) \<le> now + nat timeout_ms"
  using connect_loop_deadline [of now now timeout_ms "cx l"]
  by (cases "dial l") (simp_all add: open_proxy_socket_def)

text \<open>
  The attempts of a worker, by induction on the attempt order: what the clock has
  advanced is covered by the connections, by the polls of the handshakes and by
  the lookups of the SOCKS4 attempts.
\<close>

definition lookups_ms :: "probe \<Rightarrow> proxy_type list \<Rightarrow> nat" where
  "lookups_ms env order =
     length (filter (\<lambda>t. t = PROXY_SOCKS4) order) * snd (resolve4 env (test_host env))"

lemma attempts_time:
  "finished (attempts env timeout_ms a p order i out) + 10000 * handshake_polls out \<le>
   finished out + length order * nat timeout_ms +
   10000 * handshake_polls (attempts env timeout_ms a p order i out) + lookups_ms env order"
proof (induction order arbitrary: i out)
  case Nil
  show ?case by simp
next
  case (Cons attempt_type order)
  obtain c now where op: "open_proxy_socket (net env a i) timeout_ms (finished out) = (c, now)"
    by (cases "open_proxy_socket (net env a i) timeout_ms (finished out)")
  from open_proxy_socket_deadline [of "net env a i" timeout_ms "finished out"] op
  have now: "now \<le> finished out + nat timeout_ms" by simp
  show ?case
  proof (cases c)
    case None
    with op now show ?thesis by simp
  next
    case (Some rtt)
    let ?io = "io (net env a i)"
    let ?w = "lookup_ms (resolve4 env) attempt_type (test_host env)"
    obtain r s' where hs: "perform_proxy_handshake (resolve4 env) (?io\<lparr>clock := now\<rparr>) p
        attempt_type (test_host env) (test_port env) = (r, s')"
      by (cases "perform_proxy_handshake (resolve4 env) (?io\<lparr>clock := now\<rparr>) p
        attempt_type (test_host env) (test_port env)")
    from perform_proxy_handshake_waited [OF hs] obtain ps where
      ps: "polls s' = polls ?io @ ps" and ck: "clock s' \<le> now + length ps * 10000 + ?w"
      by (auto simp: waited_def)
    have lk: "lookups_ms env (attempt_type # order) = ?w + lookups_ms env order"
      by (simp add: lookups_ms_def lookup_ms_def)
    let ?out = "out\<lparr>connect_rtt_ms := rtt, finished := clock s',
                     handshake_polls := handshake_polls out + length ps\<rparr>"
    show ?thesis
    proof (cases "ret r = 0")
      case True
      with op Some hs ps ck now show ?thesis unfolding lk by (simp add: Let_def)
    next
      case False
      from Cons.IH [of "Suc i" ?out] ck now
      have "finished (attempts env timeout_ms a p order (Suc i) ?out) +
              10000 * handshake_polls out \<le>
            finished out + length (attempt_type # order) * nat timeout_ms +
              10000 * handshake_polls (attempts env timeout_ms a p order (Suc i) ?out) +
              (?w + lookups_ms env order)"
        by (simp add: algebra_simps)
      with op Some hs ps False show ?thesis unfolding lk by (simp add: Let_def)
    qed
  qed
qed

text \<open>
  A SOCKS4 proxy of declared type that accepts the connection at once, with a test
  host whose lookup fails after ten seconds.
\<close>

definition dns_bench :: probe where
  "dns_bench =
     \<lparr>resolve4 = (\<lambda>h. (None, 10011)),
      net = (\<lambda>a i. \<lparr>dial = Connect_now, cx = [], io = mock_socks5\<rparr>),
      test_host = ''irc.example.org'', test_port = 6667, calloc_ok = True, threads = 1\<rparr>"

definition socks4_proxy :: proxy where
  "socks4_proxy = calloc_proxy\<lparr>host := Some ''192.0.2.1'', port := 1080, type := PROXY_SOCKS4\<rparr>"

lemma dns_validate:
  "validate dns_bench 1000 0 0 socks4_proxy =
     \<lparr>keep_proxy = False, detected = PROXY_NONE, connect_rtt_ms = 0, finished = 10011,
      handshake_polls = 0\<rparr>"
  by (simp add: validate_def order_of_def socks4_proxy_def calloc_proxy_def dns_bench_def
        open_proxy_socket_def perform_proxy_handshake_def socks4_connect_def mock_socks5_def
        ret_def Let_def)

text \<open>
  Claim C9, as stated, does not hold: the worker accepts the slow proxy after 351
  seconds, with a sweep timeout of 5 seconds and 10 seconds for each poll of the
  handshake. That is more than the bound for these timeouts, and more than the
  bound for the largest timeouts the validator admits.
\<close>

theorem validate_budget_counterexample:
  "keep_proxy (validate slow_bench 5000 0 0 slow_proxy) \<and>
   elapsed_ms slow_bench 5000 0 0 slow_proxy = 351000 \<and>
   \<not> elapsed_ms slow_bench 5000 0 0 slow_proxy \<le> spec_budget 5000 10000 \<and>
   \<not> elapsed_ms slow_bench 5000 0 0 slow_proxy \<le> spec_budget 60000 60000"
  by (simp add: elapsed_ms_def spec_budget_def slow_validate)

text \<open>
  Claim C9, amended. The worker makes at most three attempts on a proxy, one if
  its type is declared; the connection of an attempt waits at most \<^verbatim>\<open>timeout_ms\<close> in
  \<^verbatim>\<open>poll\<close>, every readiness poll of a handshake waits at most ten seconds, and a
  SOCKS4 attempt, of which there is at most one, blocks in the lookup of the test
  host, which no timeout bounds. So the time the worker waits on one proxy is at
  most the number of attempts times \<^verbatim>\<open>timeout_ms\<close>, plus ten seconds for every poll
  the handshakes have made, plus the time of that lookup.
\<close>

theorem validate_time:
  "elapsed_ms env timeout_ms start_ms a p \<le>
     length (order_of p) * nat timeout_ms +
     10000 * handshake_polls (validate env timeout_ms start_ms a p) +
     (if type p = PROXY_NONE \<or> type p = PROXY_SOCKS4
      then snd (resolve4 env (test_host env)) else 0) \<and>
   length (order_of p) \<le> 3 \<and>
   (type p \<noteq> PROXY_NONE \<longrightarrow> length (order_of p) = 1)"
proof (intro conjI)
  have "lookups_ms env (order_of p) =
        (if type p = PROXY_NONE \<or> type p = PROXY_SOCKS4
         then snd (resolve4 env (test_host env)) else 0)"
    by (simp add: lookups_ms_def order_of_def)
  with attempts_time [of env timeout_ms a p "order_of p" 0
      "\<lparr>keep_proxy = False, detected = PROXY_NONE, connect_rtt_ms = 0, finished = start_ms,
        handshake_polls = 0\<rparr>"]
  show "elapsed_ms env timeout_ms start_ms a p \<le>
     length (order_of p) * nat timeout_ms +
     10000 * handshake_polls (validate env timeout_ms start_ms a p) +
     (if type p = PROXY_NONE \<or> type p = PROXY_SOCKS4
      then snd (resolve4 env (test_host env)) else 0)"
    unfolding elapsed_ms_def validate_def by simp
  show "length (order_of p) \<le> 3" by (simp add: order_of_def)
  show "type p \<noteq> PROXY_NONE \<longrightarrow> length (order_of p) = 1" by (simp add: order_of_def)
qed

theorem validate_time_witness:
  "type socks4_proxy \<noteq> PROXY_NONE \<and> length (order_of socks4_proxy) = 1 \<and>
   elapsed_ms dns_bench 1000 0 0 socks4_proxy = 10011 \<and>
   handshake_polls (validate dns_bench 1000 0 0 socks4_proxy) = 0 \<and>
   snd (resolve4 dns_bench (test_host dns_bench)) = 10011 \<and>
   elapsed_ms dns_bench 1000 0 0 socks4_proxy \<le>
     length (order_of socks4_proxy) * nat 1000 +
     10000 * handshake_polls (validate dns_bench 1000 0 0 socks4_proxy) +
     snd (resolve4 dns_bench (test_host dns_bench))"
proof -
  have t: "type socks4_proxy = PROXY_SOCKS4" by (simp add: socks4_proxy_def)
  have e: "elapsed_ms dns_bench 1000 0 0 socks4_proxy = 10011"
    by (simp add: elapsed_ms_def dns_validate)
  have h: "handshake_polls (validate dns_bench 1000 0 0 socks4_proxy) = 0"
    by (simp add: dns_validate)
  have r: "snd (resolve4 dns_bench (test_host dns_bench)) = 10011"
    by (simp add: dns_bench_def)
  from validate_time [of dns_bench 1000 0 0 socks4_proxy] t e h r show ?thesis by simp
qed

end
